theory Spec2Isabelle
  imports Main "HOL-Library.Sublist" "HOL-Library.Word"
begin

unbundle bit_operations_syntax

section \<open>Characters and Python string primitives\<close>

text \<open>
  The source is Python 2 (\<^verbatim>\<open>mode=0700\<close>): a \<^verbatim>\<open>str\<close> is a byte string, modelled as
  \<^typ>\<open>string\<close>. The characters the regular expressions of \<^verbatim>\<open>preprocessor.py\<close> single out:
\<close>

abbreviation NL :: char where "NL \<equiv> CHR 0x0A"
abbreviation CR :: char where "CR \<equiv> CHR 0x0D"
abbreviation BQ :: char where "BQ \<equiv> CHR 0x60"
abbreviation SQ :: char where "SQ \<equiv> CHR 0x27"
abbreviation BSL :: char where "BSL \<equiv> CHR 0x5C"
abbreviation SLASH :: char where "SLASH \<equiv> CHR ''/''"

text \<open>\<^verbatim>\<open>\s\<close> of a byte pattern and the characters \<^verbatim>\<open>str.strip()\<close> removes:
  space, tab, newline, vertical tab, form feed, carriage return.\<close>

definition is_space :: "char \<Rightarrow> bool" where
  "is_space c = (c = CHR '' '' \<or> c = CHR 0x09 \<or> c = NL \<or> c = CHR 0x0B \<or> c = CHR 0x0C \<or> c = CR)"

text \<open>\<^verbatim>\<open>s.strip()\<close>\<close>

definition strip :: "string \<Rightarrow> string" where
  "strip s = rev (dropWhile is_space (rev (dropWhile is_space s)))"

text \<open>\<^verbatim>\<open>f.readline()\<close> on the unread rest of a file: the line with its newline, and what
  is left to read. At the end of the file the line is empty.\<close>

fun readline :: "string \<Rightarrow> string \<times> string" where
  "readline [] = ([], [])"
| "readline (c # cs) =
     (if c = NL then ([c], cs) else (case readline cs of (l, r) \<Rightarrow> (c # l, r)))"

text \<open>\<^verbatim>\<open>s.find(pat)\<close>, returning the text before and after the first occurrence
  instead of its index; \<open>None\<close> is Python's \<^verbatim>\<open>-1\<close>.\<close>

fun find_str :: "string \<Rightarrow> string \<Rightarrow> (string \<times> string) option" where
  "find_str pat [] = (if pat = [] then Some ([], []) else None)"
| "find_str pat (c # cs) =
     (if prefix pat (c # cs) then Some ([], drop (length pat) (c # cs))
      else (case find_str pat cs of None \<Rightarrow> None | Some (b, a) \<Rightarrow> Some (c # b, a)))"

section \<open>Errors, environment and file system\<close>

text \<open>The exceptions the code and the library calls it makes can raise.\<close>

datatype error = RuntimeError | IOError | OSError | OSError_EEXIST | ValueError

text \<open>
  What the code reads from its process: \<^verbatim>\<open>os.getcwd()\<close>, \<^verbatim>\<open>tempfile.gettempdir()\<close>,
  \<^verbatim>\<open>getpass.getuser()\<close>, the directory of \<^verbatim>\<open>preprocessor.py\<close> itself
  (\<^verbatim>\<open>os.path.split(__file__)[0]\<close>, where the header templates are), and the string form of
  the clock, which stamps the nodes the code creates or writes.
\<close>

record env =
  cwd :: string
  tmpdir :: string
  username :: string
  pkgdir :: string
  clock :: string

text \<open>
  A file system maps the component list of an absolute path to a node. A node has the
  permission bits of its mode (\<^verbatim>\<open>st_mode & 07777\<close>) and the string form of its
  modification time (\<^verbatim>\<open>str(os.path.getmtime(p))\<close>: the code only ever compares and
  prints that string). The model has no symbolic links, checks no access permission,
  and creates a node with the mode the call asks for (the process umask is taken to
  be 0).
\<close>

datatype kind = Regular string | Directory

record node =
  kind :: kind
  perm :: "12 word"
  st_mtime :: string

type_synonym fs = "string list \<Rightarrow> node option"

section \<open>posixpath\<close>

text \<open>\<^verbatim>\<open>s.split('/')\<close>\<close>

fun split_sep :: "string \<Rightarrow> string list" where
  "split_sep [] = [[]]"
| "split_sep (c # cs) =
     (if c = SLASH then [] # split_sep cs
      else (case split_sep cs of [] \<Rightarrow> [[c]] | x # xs \<Rightarrow> (c # x) # xs))"

text \<open>\<^verbatim>\<open>'/'.join(comps)\<close>\<close>

fun join_sep :: "string list \<Rightarrow> string" where
  "join_sep [] = []"
| "join_sep [x] = x"
| "join_sep (x # y # ys) = x @ SLASH # join_sep (y # ys)"

definition isabs :: "string \<Rightarrow> bool" where
  "isabs s = prefix ''/'' s"

text \<open>One round of the loop of \<^verbatim>\<open>posixpath.join(a, *p)\<close>, and the loop.\<close>

definition join2 :: "string \<Rightarrow> string \<Rightarrow> string" where
  "join2 path b =
     (if prefix ''/'' b then b
      else if path = [] \<or> suffix ''/'' path then path @ b
      else path @ ''/'' @ b)"

definition join :: "string \<Rightarrow> string list \<Rightarrow> string" where
  "join a p = foldl join2 a p"

text \<open>One round of the loop of \<^verbatim>\<open>posixpath.normpath\<close> over the components.\<close>

definition norm_step :: "nat \<Rightarrow> string list \<Rightarrow> string \<Rightarrow> string list" where
  "norm_step initial_slashes new_comps cmp =
     (if cmp = [] \<or> cmp = ''.'' then new_comps
      else if cmp \<noteq> ''..'' \<or> (initial_slashes = 0 \<and> new_comps = [])
              \<or> (new_comps \<noteq> [] \<and> last new_comps = ''..'')
        then new_comps @ [cmp]
      else if new_comps \<noteq> [] then butlast new_comps
      else new_comps)"

definition normpath :: "string \<Rightarrow> string" where
  "normpath path =
     (if path = [] then ''.''
      else
        let initial_slashes =
              (if prefix ''/'' path
               then (if prefix ''//'' path \<and> \<not> prefix ''///'' path then 2 else 1)
               else (0::nat));
            comps = foldl (norm_step initial_slashes) [] (split_sep path);
            p = replicate initial_slashes SLASH @ join_sep comps
        in if p = [] then ''.'' else p)"

definition abspath :: "env \<Rightarrow> string \<Rightarrow> string" where
  "abspath e path = normpath (if \<not> isabs path then join (cwd e) [path] else path)"

text \<open>\<^verbatim>\<open>[x for x in abspath(p).split(sep) if x]\<close>, as \<^verbatim>\<open>posixpath.relpath\<close> computes it for
  both of its arguments.\<close>

definition path_list :: "env \<Rightarrow> string \<Rightarrow> string list" where
  "path_list e p = filter (\<lambda>x. x \<noteq> []) (split_sep (abspath e p))"

definition relpath :: "env \<Rightarrow> string \<Rightarrow> string \<Rightarrow> error + string" where
  "relpath e path start =
     (if path = [] then Inl ValueError
      else
        let start_list = path_list e start;
            path_lst = path_list e path;
            i = length (longest_common_prefix start_list path_lst);
            rel_list = replicate (length start_list - i) ''..'' @ drop i path_lst
        in (case rel_list of [] \<Rightarrow> Inr ''.'' | r # rs \<Rightarrow> Inr (join r rs)))"

text \<open>\<^verbatim>\<open>posixpath.split(p)\<close> and \<^verbatim>\<open>posixpath.dirname(p)\<close>\<close>

definition split_path :: "string \<Rightarrow> string \<times> string" where
  "split_path p =
     (let head = rev (dropWhile (\<lambda>c. c \<noteq> SLASH) (rev p));
          tail = rev (takeWhile (\<lambda>c. c \<noteq> SLASH) (rev p))
      in (if head \<noteq> [] \<and> head \<noteq> replicate (length head) SLASH
          then rev (dropWhile (\<lambda>c. c = SLASH) (rev head)) else head, tail))"

definition dirname :: "string \<Rightarrow> string" where
  "dirname p = fst (split_path p)"

section \<open>Operating-system calls\<close>

text \<open>The root directory always exists.\<close>

definition node_at :: "fs \<Rightarrow> string list \<Rightarrow> node option" where
  "node_at f k =
     (if k = [] then Some \<lparr>kind = Directory, perm = 493, st_mtime = ''0.0''\<rparr> else f k)"

definition is_dir :: "fs \<Rightarrow> string list \<Rightarrow> bool" where
  "is_dir f k = (case node_at f k of None \<Rightarrow> False | Some n \<Rightarrow> kind n = Directory)"

text \<open>
  Path resolution as the kernel does it, one component after the other from the
  directory \<open>cur\<close>: a component is looked up in an existing directory only (a missing
  node gives \<^verbatim>\<open>ENOENT\<close>, a regular file \<^verbatim>\<open>ENOTDIR\<close>: \<open>None\<close>); an empty component (a doubled
  or trailing slash) and \<^verbatim>\<open>.\<close> stay there, \<^verbatim>\<open>..\<close> goes to the parent, which for the root
  is the root. The node the last component names need not exist.
\<close>

fun walk :: "fs \<Rightarrow> string list \<Rightarrow> string list \<Rightarrow> string list option" where
  "walk f cur [] = Some cur"
| "walk f cur (c # cs) =
     (if \<not> is_dir f cur then None
      else if c = [] \<or> c = ''.'' then walk f cur cs
      else if c = ''..'' then walk f (butlast cur) cs
      else walk f (cur @ [c]) cs)"

text \<open>The key of the node a path names: an absolute path is resolved from the root,
  another one from the working directory; the empty path names nothing.\<close>

definition resolve :: "env \<Rightarrow> fs \<Rightarrow> string \<Rightarrow> string list option" where
  "resolve e f p =
     (if p = [] then None
      else if isabs p then walk f [] (split_sep p)
      else if \<not> isabs (cwd e) then None
      else (case walk f [] (split_sep (cwd e)) of
              None \<Rightarrow> None
            | Some k \<Rightarrow> walk f k (split_sep p)))"

definition lookup :: "env \<Rightarrow> fs \<Rightarrow> string \<Rightarrow> node option" where
  "lookup e f p = (case resolve e f p of None \<Rightarrow> None | Some k \<Rightarrow> node_at f k)"

text \<open>\<^verbatim>\<open>os.path.exists(p)\<close>\<close>

definition path_exists :: "env \<Rightarrow> fs \<Rightarrow> string \<Rightarrow> bool" where
  "path_exists e f p = (lookup e f p \<noteq> None)"

text \<open>\<^verbatim>\<open>str(os.path.getmtime(p))\<close>; \<^verbatim>\<open>getmtime\<close> raises \<^verbatim>\<open>OSError\<close> on a missing path.\<close>

definition getmtime :: "env \<Rightarrow> fs \<Rightarrow> string \<Rightarrow> error + string" where
  "getmtime e f p = (case lookup e f p of None \<Rightarrow> Inl OSError | Some n \<Rightarrow> Inr (st_mtime n))"

text \<open>\<^verbatim>\<open>open(p, 'r')\<close> followed by reading: the whole content of a regular file.\<close>

definition open_read :: "env \<Rightarrow> fs \<Rightarrow> string \<Rightarrow> error + string" where
  "open_read e f p =
     (case lookup e f p of
        None \<Rightarrow> Inl IOError
      | Some n \<Rightarrow> (case kind n of Directory \<Rightarrow> Inl IOError | Regular d \<Rightarrow> Inr d))"

section \<open>The compilation cache\<close>

text \<open>\<^verbatim>\<open>mod_time_pattern.search(line)\<close> for \<^verbatim>\<open>'#mtime:(.*)'\<close>: group 1 of the leftmost match,
  the text after the first \<^verbatim>\<open>#mtime:\<close> up to a newline (\<^verbatim>\<open>.\<close> matches none).\<close>

definition mod_time_search :: "string \<Rightarrow> string option" where
  "mod_time_search line =
     (case find_str ''#mtime:'' line of
        None \<Rightarrow> None
      | Some (b, a) \<Rightarrow> Some (takeWhile (\<lambda>c. c \<noteq> NL) a))"

definition is_compilation_needed :: "env \<Rightarrow> fs \<Rightarrow> string \<Rightarrow> string \<Rightarrow> error + bool" where
  "is_compilation_needed e f in_filepath out_filepath =
     (if \<not> path_exists e f out_filepath then Inr True
      else
        (case getmtime e f in_filepath of
           Inl err \<Rightarrow> Inl err
         | Inr in_mtime \<Rightarrow>
             (case open_read e f out_filepath of
                Inl err \<Rightarrow> Inl err
              | Inr data \<Rightarrow>
                  (case readline data of
                     (l1, rest) \<Rightarrow>
                       (case mod_time_search (strip l1) of
                          Some mtime \<Rightarrow> if in_mtime = mtime then Inr False else Inr True
                        | None \<Rightarrow>
                            (case readline rest of
                               (l2, rest') \<Rightarrow>
                                 (case mod_time_search (strip l2) of
                                    Some mtime \<Rightarrow>
                                      if in_mtime = mtime then Inr False else Inr True
                                  | None \<Rightarrow> Inl RuntimeError)))))))"

text \<open>The stamp of the first and of the second line of an artifact's content, as
  \<^const>\<open>is_compilation_needed\<close> reads them.\<close>

definition stamp1 :: "string \<Rightarrow> string option" where
  "stamp1 data = mod_time_search (strip (fst (readline data)))"

definition stamp2 :: "string \<Rightarrow> string option" where
  "stamp2 data = mod_time_search (strip (fst (readline (snd (readline data)))))"

section \<open>Path translation\<close>

definition translate_to_temp_path :: "env \<Rightarrow> string \<Rightarrow> error + string" where
  "translate_to_temp_path e path =
     (let absolute_path = abspath e path
      in (case relpath e absolute_path (abspath e ''/'') of
            Inl err \<Rightarrow> Inl err
          | Inr relative_path \<Rightarrow>
              Inr (join (tmpdir e) [''shellpy'', username e, relative_path])))"

section \<open>Regular-expression matching\<close>

text \<open>
  The passes of the preprocessor are \<^verbatim>\<open>re.sub\<close> and \<^verbatim>\<open>re.finditer\<close> calls. Each pattern is
  modelled by a function that matches it at the head of the text still to scan and
  returns the groups and the text after the match, following the backtracking order of
  \<^verbatim>\<open>re\<close>; the scan itself (leftmost match, then on from the end of the match, one
  character copied where no match starts) is a recursive function. No pattern here
  matches the empty string, so the text after a match is shorter than the text.
\<close>

text \<open>\<^verbatim>\<open>[a-z]\<close>\<close>

definition is_lower :: "char \<Rightarrow> bool" where
  "is_lower c = (97 \<le> (of_char c :: nat) \<and> (of_char c :: nat) \<le> 122)"

text \<open>\<^verbatim>\<open>[^`\n\r]\<close>\<close>

definition line_char :: "char \<Rightarrow> bool" where
  "line_char c = (c \<noteq> BQ \<and> c \<noteq> NL \<and> c \<noteq> CR)"

text \<open>\<^verbatim>\<open>[\n\r]\<close>\<close>

definition is_nl :: "char \<Rightarrow> bool" where
  "is_nl c = (c = NL \<or> c = CR)"

text \<open>\<^verbatim>\<open>$\<close> under \<^verbatim>\<open>re.MULTILINE\<close>: at the end of the text or before a newline.\<close>

definition at_eol :: "string \<Rightarrow> bool" where
  "at_eol s = (case s of [] \<Rightarrow> True | c # cs \<Rightarrow> c = NL)"

text \<open>\<^verbatim>\<open>\s*?$\<close> under \<^verbatim>\<open>re.MULTILINE\<close>: the lazy star stops at the first position where
  \<^verbatim>\<open>$\<close> holds; the result is the text from there on.\<close>

fun ws_eol :: "string \<Rightarrow> string option" where
  "ws_eol [] = Some []"
| "ws_eol (c # cs) = (if c = NL then Some (c # cs) else if is_space c then ws_eol cs else None)"

text \<open>\<^verbatim>\<open>[\n\r]{1,2}\<close> after a newline has been matched: the greedy second character.\<close>

definition skip_nl :: "string \<Rightarrow> string" where
  "skip_nl s = (case s of [] \<Rightarrow> [] | c # cs \<Rightarrow> if is_nl c then cs else c # cs)"

text \<open>\<^verbatim>\<open>s.replace(old, new)\<close>: every occurrence of \<^verbatim>\<open>old\<close>, left to right, without
  overlap; an empty \<^verbatim>\<open>old\<close> matches before every character and at the end.\<close>

function str_replace :: "string \<Rightarrow> string \<Rightarrow> string \<Rightarrow> string" where
  "str_replace old new s =
     (if old = [] then new @ concat (map (\<lambda>c. c # new) s)
      else (case s of
              [] \<Rightarrow> []
            | c # cs \<Rightarrow>
                if prefix old s then new @ str_replace old new (drop (length old) s)
                else c # str_replace old new cs))"
  by pat_completeness auto
termination
  by (relation "measure (\<lambda>(old, new, s). length s)") auto

declare str_replace.simps [simp del]

text \<open>The loop \<^verbatim>\<open>for s, ps in pairs: script_data = script_data.replace(s, ps)\<close>\<close>

definition replace_pairs :: "(string \<times> string) list \<Rightarrow> string \<Rightarrow> string" where
  "replace_pairs pairs script_data = foldl (\<lambda>sd (s, ps). str_replace s ps sd) script_data pairs"

section \<open>The grammar passes\<close>

subsection \<open>\<^verbatim>\<open>spy_file_pattern\<close>\<close>

text \<open>
  \<^verbatim>\<open>spy_file_pattern.sub(r"\1.py", path)\<close> for \<^verbatim>\<open>(.*)\.spy$\<close> (no flags): \<^verbatim>\<open>.\<close> matches no
  newline and \<^verbatim>\<open>$\<close> holds at the end of the text and before a newline that ends the
  text, so only a \<^verbatim>\<open>.spy\<close> there is rewritten.
\<close>

definition spy_sub :: "string \<Rightarrow> string" where
  "spy_sub path =
     (let body = (if suffix [NL] path then butlast path else path);
          nl = (if suffix [NL] path then [NL] else [])
      in if suffix ''.spy'' body then take (length body - 4) body @ ''.py'' @ nl else path)"

subsection \<open>\<^verbatim>\<open>process_multilines\<close>\<close>

text \<open>\<^verbatim>\<open>(.*?)`\s*?$\<close> under \<^verbatim>\<open>re.DOTALL\<close>: the lazy group ends at the first quote mark
  that only whitespace separates from an end of line.\<close>

fun find_close :: "string \<Rightarrow> (string \<times> string) option" where
  "find_close [] = None"
| "find_close (c # cs) =
     (case (if c = BQ then ws_eol cs else None) of
        Some r \<Rightarrow> Some ([], r)
      | None \<Rightarrow> (case find_close cs of None \<Rightarrow> None | Some (g, r) \<Rightarrow> Some (c # g, r)))"

text \<open>
  \<^verbatim>\<open>code_multiline_pattern\<close>, at the start of a line: group 1 (no quote mark, no line
  break) runs to the first quote mark; only whitespace may follow it on its line; one
  or two line breaks are consumed; group 2 runs to the closing quote mark. The result
  is group 1, group 2 and the text after the match.
\<close>

definition match_multiline :: "string \<Rightarrow> (string \<times> string \<times> string) option" where
  "match_multiline s =
     (case dropWhile line_char s of
        [] \<Rightarrow> None
      | c # r2 \<Rightarrow>
          if c \<noteq> BQ then None
          else (case ws_eol r2 of
                  None \<Rightarrow> None
                | Some [] \<Rightarrow> None
                | Some (nl # r3) \<Rightarrow>
                    (case find_close (skip_nl r3) of
                       None \<Rightarrow> None
                     | Some (g2, r5) \<Rightarrow> Some (takeWhile line_char s, g2, r5))))"

lemma ws_eol_length: "ws_eol s = Some r \<Longrightarrow> length r \<le> length s"
  by (induction s) (auto split: if_splits)

lemma find_close_length: "find_close s = Some (g, r) \<Longrightarrow> length r < length s"
  by (induction s arbitrary: g) (auto split: if_splits option.splits dest: ws_eol_length)

lemma skip_nl_length: "length (skip_nl s) \<le> length s"
  by (auto simp: skip_nl_def split: list.splits)

lemma match_multiline_length:
  assumes "match_multiline s = Some (g1, g2, r)"
  shows "length r < length s"
proof -
  from assms obtain r2 nl r3 where
    d: "dropWhile line_char s = BQ # r2" and w: "ws_eol r2 = Some (nl # r3)"
    and f: "find_close (skip_nl r3) = Some (g2, r)"
    by (auto simp: match_multiline_def split: list.splits if_splits option.splits)
  have "length r < length (skip_nl r3)" using f by (rule find_close_length)
  also have "\<dots> \<le> length r3" by (rule skip_nl_length)
  also have "\<dots> \<le> length r2" using ws_eol_length[OF w] by simp
  also have "\<dots> \<le> length (dropWhile line_char s)" by (simp add: d)
  also have "\<dots> \<le> length s" by (rule length_dropWhile_le)
  finally show ?thesis .
qed

text \<open>\<^verbatim>\<open>code_multiline_pattern.sub(r'\1multiline_shexe(\2)shexe', script_data)\<close>; \<open>bol\<close> says
  whether the scan stands at the start of a line, where alone \<^verbatim>\<open>^\<close> holds.\<close>

function sub_multiline :: "bool \<Rightarrow> string \<Rightarrow> string" where
  "sub_multiline bol s =
     (case (if bol then match_multiline s else None) of
        Some (g1, g2, r) \<Rightarrow> g1 @ ''multiline_shexe('' @ g2 @ '')shexe'' @ sub_multiline False r
      | None \<Rightarrow> (case s of [] \<Rightarrow> [] | c # cs \<Rightarrow> c # sub_multiline (c = NL) cs))"
  by pat_completeness auto
termination
  by (relation "measure (\<lambda>(bol, s). length s)")
     (auto split: if_splits dest: match_multiline_length)

declare sub_multiline.simps [simp del]

text \<open>\<^verbatim>\<open>multiline_shexe.*?shexe\<close> under \<^verbatim>\<open>re.DOTALL\<close>: the match and the text after it.\<close>

definition match_multiline_span :: "string \<Rightarrow> (string \<times> string) option" where
  "match_multiline_span s =
     (if prefix ''multiline_shexe'' s
      then (case find_str ''shexe'' (drop 15 s) of
              None \<Rightarrow> None
            | Some (b, a) \<Rightarrow> Some (''multiline_shexe'' @ b @ ''shexe'', a))
      else None)"

lemma find_str_length:
  "find_str pat s = Some (b, a) \<Longrightarrow> length b + length pat + length a = length s"
proof (induction s arbitrary: b)
  case Nil then show ?case by (auto split: if_splits)
next
  case (Cons c cs)
  show ?case
  proof (cases "prefix pat (c # cs)")
    case True
    then obtain zs where zs: "c # cs = pat @ zs" by (auto simp: prefix_def)
    have len: "length (c # cs) = length (pat @ zs)" by (simp only: zs)
    have "find_str pat (c # cs) = Some ([], drop (length pat) (c # cs))"
      using True by simp
    then have "b = []" "a = drop (length pat) (pat @ zs)"
      using Cons.prems by (simp_all add: zs)
    then show ?thesis using len by simp
  next
    case False
    then show ?thesis using Cons by (auto split: option.splits)
  qed
qed

lemma match_multiline_span_length: "match_multiline_span s = Some (m, r) \<Longrightarrow> length r < length s"
  by (auto simp: match_multiline_span_def split: if_splits option.splits dest!: find_str_length)

text \<open>The matches of \<^verbatim>\<open>pattern.finditer(script_data)\<close>, as the strings
  \<^verbatim>\<open>script_data[match.start():match.end()]\<close>.\<close>

function multiline_spans :: "string \<Rightarrow> string list" where
  "multiline_spans s =
     (case match_multiline_span s of
        Some (m, r) \<Rightarrow> m # multiline_spans r
      | None \<Rightarrow> (case s of [] \<Rightarrow> [] | c # cs \<Rightarrow> multiline_spans cs))"
  by pat_completeness auto
termination
  by (relation "measure length") (auto dest: match_multiline_span_length)

declare multiline_spans.simps [simp del]

text \<open>\<^verbatim>\<open>re.sub(r'([\r\n]{1,2})', r'; \\\1', original_str)\<close>: semicolon, space and backslash
  before every run of one or two line-break characters.\<close>

fun sub_newlines :: "string \<Rightarrow> string" where
  "sub_newlines [] = []"
| "sub_newlines [c] = (if is_nl c then ''; '' @ [BSL, c] else [c])"
| "sub_newlines (c # d # cs) =
     (if is_nl c
      then (if is_nl d then ''; '' @ [BSL, c, d] @ sub_newlines cs
            else ''; '' @ [BSL, c] @ sub_newlines (d # cs))
      else c # sub_newlines (d # cs))"

definition process_multilines :: "string \<Rightarrow> string" where
  "process_multilines script_data =
     (let script_data1 = sub_multiline True script_data;
          strings = multiline_spans script_data1;
          processed_string = map sub_newlines strings
      in replace_pairs (zip strings processed_string) script_data1)"

subsection \<open>\<^verbatim>\<open>process_long_lines\<close>\<close>

text \<open>
  One round of the repeated group \<^verbatim>\<open>((.*?\\\s*?$)[\n\r]{1,2})\<close> of
  \<^verbatim>\<open>code_long_line_pattern\<close>: a line whose last character that is not whitespace is a
  backslash, its newline, and a line-break character after it if there is one. The
  result is the text matched and the text after it.
\<close>

definition long_unit :: "string \<Rightarrow> (string \<times> string) option" where
  "long_unit s =
     (case dropWhile (\<lambda>c. c \<noteq> NL) s of
        [] \<Rightarrow> None
      | nl # r \<Rightarrow>
          (case dropWhile is_space (rev (takeWhile (\<lambda>c. c \<noteq> NL) s)) of
             [] \<Rightarrow> None
           | c # cs \<Rightarrow>
               if c \<noteq> BSL then None
               else Some (takeWhile (\<lambda>c. c \<noteq> NL) s @ nl # take (length r - length (skip_nl r)) r,
                          skip_nl r)))"

lemma long_unit_length: "long_unit s = Some (u, r) \<Longrightarrow> length r < length s"
proof -
  assume "long_unit s = Some (u, r)"
  then obtain nl r0 where d: "dropWhile (\<lambda>c. c \<noteq> NL) s = nl # r0" and r: "r = skip_nl r0"
    by (auto simp: long_unit_def split: list.splits if_splits)
  have "length r \<le> length r0" unfolding r by (rule skip_nl_length)
  also have "\<dots> < length (dropWhile (\<lambda>c. c \<noteq> NL) s)" by (simp add: d)
  also have "\<dots> \<le> length s" by (rule length_dropWhile_le)
  finally show ?thesis .
qed

text \<open>The greedy \<^verbatim>\<open>+\<close>: rounds as long as one matches.\<close>

function long_units :: "string \<Rightarrow> string \<times> string" where
  "long_units s =
     (case long_unit s of
        None \<Rightarrow> ([], s)
      | Some (u, r) \<Rightarrow> (case long_units r of (us, r') \<Rightarrow> (u @ us, r')))"
  by pat_completeness auto
termination
  by (relation "measure length") (auto dest: long_unit_length)

declare long_units.simps [simp del]

text \<open>\<^verbatim>\<open>code_long_line_pattern\<close>: a quote mark, one or more rounds, and \<^verbatim>\<open>(.*$)\<close>, the rest of
  the line the rounds end on. The result is group 1 and the text after the match.\<close>

definition match_long_line :: "string \<Rightarrow> (string \<times> string) option" where
  "match_long_line s =
     (case s of
        [] \<Rightarrow> None
      | c # r \<Rightarrow>
          if c \<noteq> BQ then None
          else (case long_unit r of
                  None \<Rightarrow> None
                | Some x \<Rightarrow>
                    (case long_units r of
                       (us, r1) \<Rightarrow>
                         Some (us @ takeWhile (\<lambda>c. c \<noteq> NL) r1, dropWhile (\<lambda>c. c \<noteq> NL) r1))))"

lemma long_units_length: "long_units s = (us, r) \<Longrightarrow> length r \<le> length s"
proof (induction s arbitrary: us r rule: long_units.induct)
  case (1 s)
  show ?case
  proof (cases "long_unit s")
    case None
    then show ?thesis using "1.prems" by (simp add: long_units.simps[of s])
  next
    case (Some a)
    obtain u r0 where a: "a = (u, r0)" by (cases a)
    obtain us' r' where l: "long_units r0 = (us', r')" by (cases "long_units r0")
    have "r' = r" using "1.prems" Some a l by (simp add: long_units.simps[of s])
    then have "length r \<le> length r0" using "1.IH"[OF Some[unfolded a] refl l] by simp
    then show ?thesis using long_unit_length[OF Some[unfolded a]] by simp
  qed
qed

lemma match_long_line_length: "match_long_line s = Some (g, r) \<Longrightarrow> length r < length s"
proof -
  assume a: "match_long_line s = Some (g, r)"
  then obtain r0 us r1 where s: "s = BQ # r0" and l: "long_units r0 = (us, r1)"
    and r: "r = dropWhile (\<lambda>c. c \<noteq> NL) r1"
    by (cases "long_units (tl s)")
       (auto simp: match_long_line_def split: list.splits if_splits option.splits)
  have "length r \<le> length r1" unfolding r by (rule length_dropWhile_le)
  also have "\<dots> \<le> length r0" using l by (rule long_units_length)
  finally show ?thesis by (simp add: s)
qed

function sub_long_line :: "string \<Rightarrow> string" where
  "sub_long_line s =
     (case match_long_line s of
        Some (g, r) \<Rightarrow> ''longline_shexe('' @ g @ '')shexe'' @ sub_long_line r
      | None \<Rightarrow> (case s of [] \<Rightarrow> [] | c # cs \<Rightarrow> c # sub_long_line cs))"
  by pat_completeness auto
termination
  by (relation "measure length") (auto dest: match_long_line_length)

declare sub_long_line.simps [simp del]

definition process_long_lines :: "string \<Rightarrow> string" where
  "process_long_lines script_data = sub_long_line script_data"

subsection \<open>\<^verbatim>\<open>process_code_both\<close>\<close>

text \<open>\<^verbatim>\<open>`(.*?)`\<close> (no flags): from a quote mark to the next one on the same line.\<close>

definition match_code_both :: "string \<Rightarrow> (string \<times> string) option" where
  "match_code_both s =
     (case s of
        [] \<Rightarrow> None
      | c # r \<Rightarrow>
          if c \<noteq> BQ then None
          else (case dropWhile (\<lambda>x. x \<noteq> BQ \<and> x \<noteq> NL) r of
                  [] \<Rightarrow> None
                | d # r' \<Rightarrow>
                    if d = BQ then Some (takeWhile (\<lambda>x. x \<noteq> BQ \<and> x \<noteq> NL) r, r') else None))"

lemma match_code_both_length: "match_code_both s = Some (g, r) \<Longrightarrow> length r < length s"
proof -
  assume "match_code_both s = Some (g, r)"
  then obtain r0 where s: "s = BQ # r0"
    and d: "dropWhile (\<lambda>x. x \<noteq> BQ \<and> x \<noteq> NL) r0 = BQ # r"
    by (auto simp: match_code_both_def split: list.splits if_splits)
  have "length r < length (dropWhile (\<lambda>x. x \<noteq> BQ \<and> x \<noteq> NL) r0)" by (simp add: d)
  also have "\<dots> \<le> length r0" by (rule length_dropWhile_le)
  finally show ?thesis by (simp add: s)
qed

function sub_code_both :: "string \<Rightarrow> string" where
  "sub_code_both s =
     (case match_code_both s of
        Some (g, r) \<Rightarrow> ''both_shexe('' @ g @ '')shexe'' @ sub_code_both r
      | None \<Rightarrow> (case s of [] \<Rightarrow> [] | c # cs \<Rightarrow> c # sub_code_both cs))"
  by pat_completeness auto
termination
  by (relation "measure length") (auto dest: match_code_both_length)

declare sub_code_both.simps [simp del]

definition process_code_both :: "string \<Rightarrow> string" where
  "process_code_both script_data = sub_code_both script_data"

subsection \<open>\<^verbatim>\<open>process_code_start\<close>\<close>

text \<open>
  \<^verbatim>\<open>code_start_pattern\<close>, at the start of a line: group 1 (greedy, no quote mark, no line
  break) runs to the first quote mark, group 2 (one character at least, no quote mark,
  no line break) runs from there to the end of the line, where \<^verbatim>\<open>$\<close> must hold.
\<close>

definition match_code_start :: "string \<Rightarrow> (string \<times> string \<times> string) option" where
  "match_code_start s =
     (case dropWhile line_char s of
        [] \<Rightarrow> None
      | c # r2 \<Rightarrow>
          if c \<noteq> BQ then None
          else if takeWhile line_char r2 \<noteq> [] \<and> at_eol (dropWhile line_char r2)
          then Some (takeWhile line_char s, takeWhile line_char r2, dropWhile line_char r2)
          else None)"

lemma match_code_start_length:
  assumes "match_code_start s = Some (g1, g2, r)"
  shows "length r < length s"
proof -
  from assms obtain r2 where d: "dropWhile line_char s = BQ # r2"
    and r: "r = dropWhile line_char r2"
    by (auto simp: match_code_start_def split: list.splits if_splits)
  have "length r \<le> length r2" unfolding r by (rule length_dropWhile_le)
  also have "\<dots> < length (dropWhile line_char s)" by (simp add: d)
  also have "\<dots> \<le> length s" by (rule length_dropWhile_le)
  finally show ?thesis .
qed

function sub_code_start :: "bool \<Rightarrow> string \<Rightarrow> string" where
  "sub_code_start bol s =
     (case (if bol then match_code_start s else None) of
        Some (g1, g2, r) \<Rightarrow> g1 @ ''start_shexe('' @ g2 @ '')shexe'' @ sub_code_start False r
      | None \<Rightarrow> (case s of [] \<Rightarrow> [] | c # cs \<Rightarrow> c # sub_code_start (c = NL) cs))"
  by pat_completeness auto
termination
  by (relation "measure (\<lambda>(bol, s). length s)")
     (auto split: if_splits dest: match_code_start_length)

declare sub_code_start.simps [simp del]

definition process_code_start :: "string \<Rightarrow> string" where
  "process_code_start script_data = sub_code_start True script_data"

section \<open>Escaper and Emitter\<close>

subsection \<open>\<^verbatim>\<open>escape\<close>\<close>

text \<open>
  \<^verbatim>\<open>[a-z]*_shexe.*?shexe\<close> under \<^verbatim>\<open>re.DOTALL\<close>: the greedy \<^verbatim>\<open>[a-z]*\<close> takes the whole run of
  lower-case letters (a shorter run is followed by a letter, not by the underscore),
  \<^verbatim>\<open>_shexe\<close> must follow, and the lazy \<^verbatim>\<open>.*?\<close> ends at the first \<^verbatim>\<open>shexe\<close> after it. The
  result is the match and the text after it.
\<close>

definition match_shexe_span :: "string \<Rightarrow> (string \<times> string) option" where
  "match_shexe_span s =
     (if prefix ''_shexe'' (dropWhile is_lower s)
      then (case find_str ''shexe'' (drop 6 (dropWhile is_lower s)) of
              None \<Rightarrow> None
            | Some (b, a) \<Rightarrow> Some (takeWhile is_lower s @ ''_shexe'' @ b @ ''shexe'', a))
      else None)"

lemma match_shexe_span_length: "match_shexe_span s = Some (m, r) \<Longrightarrow> length r < length s"
proof -
  assume "match_shexe_span s = Some (m, r)"
  then obtain b where "find_str ''shexe'' (drop 6 (dropWhile is_lower s)) = Some (b, r)"
    by (auto simp: match_shexe_span_def split: if_splits option.splits)
  then have "length r < length (drop 6 (dropWhile is_lower s))"
    by (auto dest!: find_str_length)
  also have "\<dots> \<le> length (dropWhile is_lower s)" by simp
  also have "\<dots> \<le> length s" by (rule length_dropWhile_le)
  finally show ?thesis .
qed

text \<open>The matches of \<^verbatim>\<open>pattern.finditer(script_data)\<close>.\<close>

function shexe_spans :: "string \<Rightarrow> string list" where
  "shexe_spans s =
     (case match_shexe_span s of
        Some (m, r) \<Rightarrow> m # shexe_spans r
      | None \<Rightarrow> (case s of [] \<Rightarrow> [] | c # cs \<Rightarrow> shexe_spans cs))"
  by pat_completeness auto
termination
  by (relation "measure length") (auto dest: match_shexe_span_length)

declare shexe_spans.simps [simp del]

text \<open>\<^verbatim>\<open>original_str.replace('\'', '\\\'')\<close>: a backslash before every single quote.\<close>

definition escape_quotes :: "string \<Rightarrow> string" where
  "escape_quotes original_str = str_replace [SQ] [BSL, SQ] original_str"

definition escape :: "string \<Rightarrow> string" where
  "escape script_data =
     (let strings = filter (\<lambda>original_str. SQ \<in> set original_str) (shexe_spans script_data);
          processed_string = map escape_quotes strings
      in replace_pairs (zip strings processed_string) script_data)"

subsection \<open>\<^verbatim>\<open>intermediate_to_final\<close>\<close>

text \<open>
  \<^verbatim>\<open>[a-z]*_shexe\((.*?)\)shexe\<close> under \<^verbatim>\<open>re.DOTALL\<close>: the whole run of lower-case letters,
  \<^verbatim>\<open>_shexe(\<close>, and group 1 up to the first \<^verbatim>\<open>)shexe\<close>. The result is group 1 and the text
  after the match.
\<close>

definition match_intermediate :: "string \<Rightarrow> (string \<times> string) option" where
  "match_intermediate s =
     (if prefix ''_shexe('' (dropWhile is_lower s)
      then find_str '')shexe'' (drop 7 (dropWhile is_lower s))
      else None)"

lemma match_intermediate_length: "match_intermediate s = Some (g, r) \<Longrightarrow> length r < length s"
proof -
  assume "match_intermediate s = Some (g, r)"
  then have "find_str '')shexe'' (drop 7 (dropWhile is_lower s)) = Some (g, r)"
    by (auto simp: match_intermediate_def split: if_splits)
  then have "length r < length (drop 7 (dropWhile is_lower s))"
    by (auto dest!: find_str_length)
  also have "\<dots> \<le> length (dropWhile is_lower s)" by simp
  also have "\<dots> \<le> length s" by (rule length_dropWhile_le)
  finally show ?thesis .
qed

text \<open>The replacement template \<^verbatim>\<open>exe('\1'.format(**dict(locals(), **globals())))\<close> with
  group 1 filled in.\<close>

definition exe_call :: "string \<Rightarrow> string" where
  "exe_call g = ''exe('' @ [SQ] @ g @ [SQ] @ ''.format(**dict(locals(), **globals())))''"

function intermediate_to_final :: "string \<Rightarrow> string" where
  "intermediate_to_final s =
     (case match_intermediate s of
        Some (g, r) \<Rightarrow> exe_call g @ intermediate_to_final r
      | None \<Rightarrow> (case s of [] \<Rightarrow> [] | c # cs \<Rightarrow> c # intermediate_to_final cs))"
  by pat_completeness auto
termination
  by (relation "measure length") (auto dest: match_intermediate_length)

declare intermediate_to_final.simps [simp del]



section \<open>Writing the artifact\<close>

text \<open>\<^verbatim>\<open>os.stat(p).st_mode\<close>: the file type (\<^verbatim>\<open>S_IFREG\<close> is 0100000, \<^verbatim>\<open>S_IFDIR\<close> is 040000) and
  the permission bits; \<^verbatim>\<open>os.stat\<close> raises \<^verbatim>\<open>OSError\<close> on a missing path.\<close>

definition st_mode :: "node \<Rightarrow> nat" where
  "st_mode n = (case kind n of Regular d \<Rightarrow> 32768 | Directory \<Rightarrow> 16384) + unat (perm n)"

definition stat :: "env \<Rightarrow> fs \<Rightarrow> string \<Rightarrow> error + node" where
  "stat e f p = (case lookup e f p of None \<Rightarrow> Inl OSError | Some n \<Rightarrow> Inr n)"

text \<open>\<^verbatim>\<open>stat.S_IEXEC\<close>, 0100\<close>

definition S_IEXEC :: nat where
  "S_IEXEC = 64"

text \<open>\<^verbatim>\<open>os.chmod(p, mode)\<close> sets the permission bits, \<^verbatim>\<open>mode & 07777\<close>.\<close>

definition chmod :: "env \<Rightarrow> fs \<Rightarrow> string \<Rightarrow> nat \<Rightarrow> error + fs" where
  "chmod e f p m =
     (case resolve e f p of
        None \<Rightarrow> Inl OSError
      | Some k \<Rightarrow>
          (case node_at f k of
             None \<Rightarrow> Inl OSError
           | Some n \<Rightarrow> Inr (if k = [] then f else f(k \<mapsto> n\<lparr>perm := of_nat m\<rparr>))))"

text \<open>\<^verbatim>\<open>open(p, 'w')\<close>, \<^verbatim>\<open>f.write(data)\<close> and the close: the directory of the file must
  exist; an existing regular file keeps its mode, a new one is created with mode 0666.\<close>

definition open_write :: "env \<Rightarrow> fs \<Rightarrow> string \<Rightarrow> string \<Rightarrow> error + fs" where
  "open_write e f p data =
     (case resolve e f p of
        None \<Rightarrow> Inl IOError
      | Some k \<Rightarrow>
          if k = [] then Inl IOError
          else (case node_at f (butlast k) of
                  None \<Rightarrow> Inl IOError
                | Some d \<Rightarrow>
                    (case kind d of
                       Regular x \<Rightarrow> Inl IOError
                     | Directory \<Rightarrow>
                         (case f k of
                            None \<Rightarrow>
                              Inr (f(k \<mapsto> \<lparr>kind = Regular data, perm = 438, st_mtime = clock e\<rparr>))
                          | Some n \<Rightarrow>
                              (case kind n of
                                 Directory \<Rightarrow> Inl IOError
                               | Regular x \<Rightarrow>
                                   Inr (f(k \<mapsto> n\<lparr>kind := Regular data, st_mtime := clock e\<rparr>)))))))"

text \<open>\<^verbatim>\<open>os.mkdir(p, mode)\<close>: the path, whose trailing slashes do not count, must not exist
  and its parent must be a directory.\<close>

definition rstrip_slashes :: "string \<Rightarrow> string" where
  "rstrip_slashes p =
     (if p = replicate (length p) SLASH then p else rev (dropWhile (\<lambda>c. c = SLASH) (rev p)))"

definition mkdir :: "env \<Rightarrow> fs \<Rightarrow> string \<Rightarrow> nat \<Rightarrow> error + fs" where
  "mkdir e f p m =
     (case resolve e f (rstrip_slashes p) of
        None \<Rightarrow> Inl OSError
      | Some k \<Rightarrow>
          if node_at f k \<noteq> None then Inl OSError_EEXIST
          else (case node_at f (butlast k) of
                  None \<Rightarrow> Inl OSError
                | Some d \<Rightarrow>
                    (case kind d of
                       Regular x \<Rightarrow> Inl OSError
                     | Directory \<Rightarrow>
                         Inr (f(k \<mapsto> \<lparr>kind = Directory, perm = of_nat m, st_mtime = clock e\<rparr>)))))"

text \<open>The first lines of \<^verbatim>\<open>os.makedirs(name, mode)\<close> (Python 2.7):
  \<^verbatim>\<open>head, tail = path.split(name)\<close>, and once more on \<^verbatim>\<open>head\<close> when \<^verbatim>\<open>tail\<close> is empty.\<close>

definition makedirs_split :: "string \<Rightarrow> string \<times> string" where
  "makedirs_split name =
     (case split_path name of (head, tail) \<Rightarrow> if tail = [] then split_path head else (head, tail))"

lemma split_path_length: "split_path p = (h, t) \<Longrightarrow> length h + length t \<le> length p"
proof -
  assume a: "split_path p = (h, t)"
  let ?h0 = "rev (dropWhile (\<lambda>c. c \<noteq> SLASH) (rev p))"
  have t: "t = rev (takeWhile (\<lambda>c. c \<noteq> SLASH) (rev p))"
    using a by (simp add: split_path_def Let_def)
  have "h = ?h0 \<or> h = rev (dropWhile (\<lambda>c. c = SLASH) (rev ?h0))"
    using a by (auto simp: split_path_def Let_def split: if_splits)
  then have "length h \<le> length ?h0"
    using length_dropWhile_le[of "\<lambda>c. c = SLASH" "rev ?h0"] by auto
  moreover have "length ?h0 + length t = length p"
    unfolding t using takeWhile_dropWhile_id[of "\<lambda>c. c \<noteq> SLASH" "rev p"]
    by (metis add.commute length_append length_rev)
  ultimately show ?thesis by simp
qed

lemma makedirs_split_length:
  assumes "makedirs_split name = (head, tail)" "tail \<noteq> []"
  shows "length head < length name"
proof (cases "split_path name")
  case (Pair h0 t0)
  show ?thesis
  proof (cases "t0 = []")
    case True
    then have "split_path h0 = (head, tail)" using assms(1) Pair by (simp add: makedirs_split_def)
    then have "length head + length tail \<le> length h0" by (rule split_path_length)
    moreover have "length h0 + length t0 \<le> length name" using Pair by (rule split_path_length)
    ultimately show ?thesis using assms(2) by (cases tail) auto
  next
    case False
    then have "h0 = head" "t0 = tail" using assms(1) Pair by (simp_all add: makedirs_split_def)
    then show ?thesis using split_path_length[OF Pair] assms(2) by (cases tail) auto
  qed
qed

text \<open>
  \<^verbatim>\<open>os.makedirs(name, mode)\<close> of Python 2.7: the missing ancestors are made first, with the
  same mode; an \<^verbatim>\<open>EEXIST\<close> from making them is swallowed; a name that ends in \<^verbatim>\<open>.\<close> exists
  once its parent does. The directories made before an error stay, so the result is the
  error, if any, and the file system as the call leaves it.
\<close>

function makedirs :: "env \<Rightarrow> fs \<Rightarrow> string \<Rightarrow> nat \<Rightarrow> error option \<times> fs" where
  "makedirs e f name m =
     (case makedirs_split name of
        (head, tail) \<Rightarrow>
          if head \<noteq> [] \<and> tail \<noteq> [] \<and> \<not> path_exists e f head
          then (case makedirs e f head m of
                  (Some err, f') \<Rightarrow>
                    if err \<noteq> OSError_EEXIST then (Some err, f')
                    else if tail = ''.'' then (None, f')
                    else (case mkdir e f' name m of
                            Inl err' \<Rightarrow> (Some err', f') | Inr f'' \<Rightarrow> (None, f''))
                | (None, f') \<Rightarrow>
                    if tail = ''.'' then (None, f')
                    else (case mkdir e f' name m of
                            Inl err' \<Rightarrow> (Some err', f') | Inr f'' \<Rightarrow> (None, f'')))
          else (case mkdir e f name m of Inl err' \<Rightarrow> (Some err', f) | Inr f'' \<Rightarrow> (None, f'')))"
  by pat_completeness auto
termination
  by (relation "measure (\<lambda>(e, f, name, m). length name)")
     (auto dest: makedirs_split_length[OF sym])

declare makedirs.simps [simp del]

section \<open>\<^verbatim>\<open>get_header\<close> and \<^verbatim>\<open>preprocess_file\<close>\<close>

text \<open>The two templates are files beside \<^verbatim>\<open>preprocessor.py\<close>; the marker is replaced by
  \<^verbatim>\<open>'mtime:{}'.format(mod_time)\<close>, the string form of the source's modification time.\<close>

definition get_header :: "env \<Rightarrow> fs \<Rightarrow> string \<Rightarrow> bool \<Rightarrow> error + string" where
  "get_header e f filepath is_root_script =
     (let header_name = (if is_root_script then ''header_root.tpl'' else ''header.tpl'');
          header_filename = join (pkgdir e) [header_name]
      in (case open_read e f header_filename of
            Inl err \<Rightarrow> Inl err
          | Inr header_data \<Rightarrow>
              (case getmtime e f filepath of
                 Inl err \<Rightarrow> Inl err
               | Inr mod_time \<Rightarrow>
                   Inr (str_replace ''{SOURCE_MODIFICATION_DATE}'' (''mtime:'' @ mod_time)
                          header_data))))"

text \<open>The four grammar passes, the Escaper and the Emitter, in the order of
  \<^verbatim>\<open>preprocess_file\<close>.\<close>

definition transpile :: "string \<Rightarrow> string" where
  "transpile in_file_data =
     (let processed_data = in_file_data;
          processed_data = process_multilines processed_data;
          processed_data = process_long_lines processed_data;
          processed_data = process_code_both processed_data;
          processed_data = process_code_start processed_data;
          processed_data = escape processed_data;
          processed_data = intermediate_to_final processed_data
      in processed_data)"

text \<open>\<^verbatim>\<open>preprocess_file\<close> from the directory test on: the steps of a compilation.\<close>

definition compile_file :: "env \<Rightarrow> fs \<Rightarrow> string \<Rightarrow> string \<Rightarrow> bool \<Rightarrow> error + fs \<times> string" where
  "compile_file e f in_filepath out_filename is_root_script =
     (case (if \<not> path_exists e f (dirname out_filename)
            then makedirs e f (dirname out_filename) 448 else (None, f)) of
        (Some err, f1) \<Rightarrow> Inl err
      | (None, f1) \<Rightarrow>
          (case get_header e f1 in_filepath is_root_script of
             Inl err \<Rightarrow> Inl err
           | Inr header_data \<Rightarrow>
               (case open_read e f1 in_filepath of
                  Inl err \<Rightarrow> Inl err
                | Inr in_file_data \<Rightarrow>
                    (case open_write e f1 out_filename (header_data @ transpile in_file_data) of
                       Inl err \<Rightarrow> Inl err
                     | Inr f2 \<Rightarrow>
                         (case stat e f2 in_filepath of
                            Inl err \<Rightarrow> Inl err
                          | Inr in_file_stat \<Rightarrow>
                              (case chmod e f2 out_filename (st_mode in_file_stat) of
                                 Inl err \<Rightarrow> Inl err
                               | Inr f3 \<Rightarrow>
                                   if is_root_script
                                   then (case chmod e f3 out_filename
                                                (st_mode in_file_stat OR S_IEXEC) of
                                           Inl err \<Rightarrow> Inl err
                                         | Inr f4 \<Rightarrow> Inr (f4, out_filename))
                                   else Inr (f3, out_filename)))))))"

text \<open>\<^verbatim>\<open>not is_root_script and not is_compilation_needed(...)\<close>: Python's \<^verbatim>\<open>and\<close> evaluates its
  right operand only when the left one is true.\<close>

definition preprocess_file :: "env \<Rightarrow> fs \<Rightarrow> string \<Rightarrow> bool \<Rightarrow> error + fs \<times> string" where
  "preprocess_file e f in_filepath is_root_script =
     (let new_filepath = spy_sub in_filepath
      in (case translate_to_temp_path e new_filepath of
            Inl err \<Rightarrow> Inl err
          | Inr out_filename \<Rightarrow>
              if \<not> is_root_script
              then (case is_compilation_needed e f in_filepath out_filename of
                      Inl err \<Rightarrow> Inl err
                    | Inr needed \<Rightarrow>
                        if \<not> needed then Inr (f, out_filename)
                        else compile_file e f in_filepath out_filename is_root_script)
              else compile_file e f in_filepath out_filename is_root_script))"

section \<open>Notions the properties are stated with\<close>

text \<open>What making directories with mode \<open>m\<close> can do to a file system: the nodes it has
  stay as they are, and a new node is a directory of that mode.\<close>

definition dirs_added :: "env \<Rightarrow> nat \<Rightarrow> fs \<Rightarrow> fs \<Rightarrow> bool" where
  "dirs_added e m f f' =
     (\<forall>k. f' k = f k
        \<or> (f k = None
            \<and> f' k = Some \<lparr>kind = Directory, perm = of_nat m, st_mtime = clock e\<rparr>))"

section \<open>Example environment\<close>

text \<open>A user \<^verbatim>\<open>u\<close> working in \<^verbatim>\<open>/home/u\<close>, with \<^verbatim>\<open>/tmp\<close> as the temporary directory and
  the package installed in \<^verbatim>\<open>/pkg\<close>.\<close>

definition ex_env :: env where
  "ex_env = \<lparr>cwd = ''/home/u'', tmpdir = ''/tmp'', username = ''u'', pkgdir = ''/pkg'',
     clock = ''9.0''\<rparr>"

text \<open>File systems with the source \<^verbatim>\<open>/home/u/a.spy\<close> (mode 0644, modified at \<^verbatim>\<open>2.0\<close>) and the
  two header templates: with no sandbox yet; with the sandbox and an artifact that
  carries the stamp of the source; and with the sandbox down to \<^verbatim>\<open>/tmp/shellpy/u/home\<close>.\<close>

definition src_fs :: fs where
  "src_fs = Map.empty
     ([''home''] \<mapsto> \<lparr>kind = Directory, perm = 493, st_mtime = ''1.0''\<rparr>,
      [''home'', ''u''] \<mapsto> \<lparr>kind = Directory, perm = 493, st_mtime = ''1.0''\<rparr>,
      [''home'', ''u'', ''a.spy''] \<mapsto>
        \<lparr>kind = Regular (''x = '' @ [BQ] @ ''ls'' @ [BQ]), perm = 420, st_mtime = ''2.0''\<rparr>,
      [''pkg''] \<mapsto> \<lparr>kind = Directory, perm = 493, st_mtime = ''1.0''\<rparr>,
      [''pkg'', ''header.tpl''] \<mapsto>
        \<lparr>kind = Regular (''#{SOURCE_MODIFICATION_DATE}'' @ [NL]), perm = 420, st_mtime = ''1.0''\<rparr>,
      [''pkg'', ''header_root.tpl''] \<mapsto>
        \<lparr>kind = Regular (''#!/usr/bin/env python'' @ [NL] @ ''#{SOURCE_MODIFICATION_DATE}'' @ [NL]),
         perm = 420, st_mtime = ''1.0''\<rparr>,
      [''tmp''] \<mapsto> \<lparr>kind = Directory, perm = 511, st_mtime = ''1.0''\<rparr>)"

definition hit_fs :: fs where
  "hit_fs = src_fs
     ([''tmp'', ''shellpy''] \<mapsto> \<lparr>kind = Directory, perm = 448, st_mtime = ''3.0''\<rparr>,
      [''tmp'', ''shellpy'', ''u''] \<mapsto> \<lparr>kind = Directory, perm = 448, st_mtime = ''3.0''\<rparr>,
      [''tmp'', ''shellpy'', ''u'', ''home''] \<mapsto>
        \<lparr>kind = Directory, perm = 448, st_mtime = ''3.0''\<rparr>,
      [''tmp'', ''shellpy'', ''u'', ''home'', ''u''] \<mapsto>
        \<lparr>kind = Directory, perm = 448, st_mtime = ''3.0''\<rparr>,
      [''tmp'', ''shellpy'', ''u'', ''home'', ''u'', ''a.py''] \<mapsto>
        \<lparr>kind = Regular (''#mtime:2.0'' @ [NL] @ ''x = 0''), perm = 420, st_mtime = ''3.0''\<rparr>)"


text \<open>Path resolution in the sandbox of \<^const>\<open>hit_fs\<close>: a trailing slash after a regular file
  and a \<^verbatim>\<open>..\<close> after a missing directory name nothing.\<close>

lemma path_exists_examples:
  "path_exists ex_env hit_fs ''/tmp/shellpy/u/home/u/a.py''
   \<and> \<not> path_exists ex_env hit_fs ''/tmp/shellpy/u/home/u/a.py/''
   \<and> getmtime ex_env hit_fs ''a.spy/'' = Inl OSError
   \<and> \<not> path_exists ex_env hit_fs ''/nowhere/../tmp''
   \<and> path_exists ex_env hit_fs ''/tmp/../home/./u/''"
  by code_simp

text \<open>The source, last modified at \<^verbatim>\<open>2.0\<close>, beside an artifact whose first line carries
  the stamp \<^verbatim>\<open>1.0\<close> and whose second line carries the stamp \<^verbatim>\<open>2.0\<close>.\<close>

definition two_stamps :: string where
  "two_stamps = ''#mtime:1.0'' @ [NL] @ ''#mtime:2.0'' @ [NL] @ ''x = 1''"

definition stale_fs :: fs where
  "stale_fs = hit_fs
     ([''tmp'', ''shellpy'', ''u'', ''home'', ''u'', ''a.py''] \<mapsto>
        \<lparr>kind = Regular two_stamps, perm = 420, st_mtime = ''3.0''\<rparr>)"

section \<open>The compilation cache: properties\<close>

text \<open>
  C2 (as amended). With no artifact at the artifact path \<^const>\<open>is_compilation_needed\<close>
  returns true. With an artifact that is a regular file and an existing source, the
  second line is read only when the first line carries no stamp marker: the result is
  false exactly when the first of the two lines that carries a marker (the first line,
  or the second when the first has none) carries the string form of the source's
  modification time; it is the \<^verbatim>\<open>RuntimeError\<close> exactly when neither line carries a marker;
  and it is true exactly when that first marker carries another stamp.
\<close>

theorem is_compilation_needed_first_marker:
  "(lookup e f out_filepath = None \<longrightarrow>
      is_compilation_needed e f in_filepath out_filepath = Inr True)
   \<and> (\<forall>a data s.
        lookup e f out_filepath = Some a \<and> kind a = Regular data
        \<and> lookup e f in_filepath = Some s \<longrightarrow>
        (is_compilation_needed e f in_filepath out_filepath = Inr False \<longleftrightarrow>
           stamp1 data = Some (st_mtime s)
           \<or> (stamp1 data = None \<and> stamp2 data = Some (st_mtime s)))
        \<and> (is_compilation_needed e f in_filepath out_filepath = Inl RuntimeError \<longleftrightarrow>
           stamp1 data = None \<and> stamp2 data = None)
        \<and> (is_compilation_needed e f in_filepath out_filepath = Inr True \<longleftrightarrow>
           (\<exists>t. t \<noteq> st_mtime s
              \<and> (stamp1 data = Some t \<or> (stamp1 data = None \<and> stamp2 data = Some t)))))"
  by (auto simp: is_compilation_needed_def path_exists_def getmtime_def open_read_def
        stamp1_def stamp2_def split: prod.splits option.splits)

text \<open>The theorem at an artifact whose only marker is on its second line and equals the
  source's stamp \<^verbatim>\<open>2.0\<close>, and at a path with no artifact.\<close>

theorem is_compilation_needed_first_marker_witness:
  "is_compilation_needed ex_env
     (stale_fs([''tmp'', ''shellpy'', ''u'', ''home'', ''u'', ''a.py''] \<mapsto>
        \<lparr>kind = Regular (''#!/usr/bin/env python'' @ [NL] @ ''#mtime:2.0'' @ [NL]),
         perm = 420, st_mtime = ''3.0''\<rparr>))
     ''a.spy'' ''/tmp/shellpy/u/home/u/a.py'' = Inr False
   \<and> is_compilation_needed ex_env stale_fs ''a.spy'' ''/tmp/shellpy/u/home/u/b.py'' = Inr True"
proof -
  let ?art = "\<lparr>kind = Regular (''#!/usr/bin/env python'' @ [NL] @ ''#mtime:2.0'' @ [NL]),
         perm = 420, st_mtime = ''3.0''\<rparr>"
  let ?src = "\<lparr>kind = Regular (''x = '' @ [BQ] @ ''ls'' @ [BQ]), perm = 420,
         st_mtime = ''2.0''\<rparr>"
  let ?f = "stale_fs([''tmp'', ''shellpy'', ''u'', ''home'', ''u'', ''a.py''] \<mapsto> ?art)"
  have a: "lookup ex_env ?f ''/tmp/shellpy/u/home/u/a.py'' = Some ?art"
    by code_simp
  have s: "lookup ex_env ?f ''a.spy'' = Some ?src"
    by code_simp
  have n: "lookup ex_env stale_fs ''/tmp/shellpy/u/home/u/b.py'' = None"
    by code_simp
  have s1: "stamp1 (''#!/usr/bin/env python'' @ [NL] @ ''#mtime:2.0'' @ [NL]) = None"
    by code_simp
  have s2: "stamp2 (''#!/usr/bin/env python'' @ [NL] @ ''#mtime:2.0'' @ [NL]) = Some ''2.0''"
    by code_simp
  from is_compilation_needed_first_marker
         [of ex_env ?f "''/tmp/shellpy/u/home/u/a.py''" "''a.spy''"] a s s1 s2
  have "is_compilation_needed ex_env ?f ''a.spy'' ''/tmp/shellpy/u/home/u/a.py'' = Inr False"
    by simp
  moreover from is_compilation_needed_first_marker
         [of ex_env stale_fs "''/tmp/shellpy/u/home/u/b.py''" "''a.spy''"] n
  have "is_compilation_needed ex_env stale_fs ''a.spy'' ''/tmp/shellpy/u/home/u/b.py'' = Inr True"
    by simp
  ultimately show ?thesis by simp
qed

text \<open>
  C2 as stated fails: the second line of the artifact of \<^const>\<open>stale_fs\<close> carries the
  stamp \<^verbatim>\<open>2.0\<close> of the source, yet the first line carries a marker (with the stamp
  \<^verbatim>\<open>1.0\<close>), the second line is never read, and the result is true.
\<close>

theorem is_compilation_needed_either_line_counterexample:
  "lookup ex_env stale_fs ''a.spy''
     = Some \<lparr>kind = Regular (''x = '' @ [BQ] @ ''ls'' @ [BQ]), perm = 420, st_mtime = ''2.0''\<rparr>
   \<and> lookup ex_env stale_fs ''/tmp/shellpy/u/home/u/a.py''
     = Some \<lparr>kind = Regular two_stamps, perm = 420, st_mtime = ''3.0''\<rparr>
   \<and> stamp2 two_stamps = Some ''2.0''
   \<and> is_compilation_needed ex_env stale_fs ''a.spy'' ''/tmp/shellpy/u/home/u/a.py'' = Inr True"
  by code_simp

section \<open>Path translation: properties\<close>

lemma split_sep_not_Nil: "split_sep s \<noteq> []"
  by (induction s) (auto split: list.splits)

lemma split_sep_slash_append: "split_sep (a @ SLASH # b) = split_sep a @ split_sep b"
  by (induction a) (auto split: list.splits simp: split_sep_not_Nil)

lemma split_sep_no_slash: "SLASH \<notin> set c \<Longrightarrow> split_sep c = [c]"
  by (induction c) (auto split: list.splits)

lemma split_sep_parts: "x \<in> set (split_sep s) \<Longrightarrow> SLASH \<notin> set x"
  by (induction s arbitrary: x) (auto split: list.splits if_splits)

lemma split_sep_join_sep:
  "cs \<noteq> [] \<Longrightarrow> \<forall>c\<in>set cs. SLASH \<notin> set c \<Longrightarrow> split_sep (join_sep cs) = cs"
  by (induction cs rule: join_sep.induct) (auto simp: split_sep_no_slash split_sep_slash_append)

text \<open>The components a normalised absolute path is made of: none is empty, \<^verbatim>\<open>.\<close> or
  \<^verbatim>\<open>..\<close>, none holds a slash.\<close>

definition good_comp :: "string \<Rightarrow> bool" where
  "good_comp c = (c \<noteq> [] \<and> c \<noteq> ''.'' \<and> c \<noteq> ''..'' \<and> SLASH \<notin> set c)"

lemma norm_step_good:
  "0 < i \<Longrightarrow> \<forall>c\<in>set acc. good_comp c \<Longrightarrow> SLASH \<notin> set x \<Longrightarrow> \<forall>c\<in>set (norm_step i acc x). good_comp c"
  by (auto simp: norm_step_def good_comp_def dest: in_set_butlastD)

lemma norm_fold_good:
  "0 < i \<Longrightarrow> \<forall>c\<in>set acc. good_comp c \<Longrightarrow> \<forall>x\<in>set xs. SLASH \<notin> set x \<Longrightarrow>
     \<forall>c\<in>set (foldl (norm_step i) acc xs). good_comp c"
proof (induction xs arbitrary: acc)
  case Nil then show ?case by simp
next
  case (Cons x xs)
  have "\<forall>c\<in>set (norm_step i acc x). good_comp c"
    using Cons.prems by (intro norm_step_good) auto
  then show ?case using Cons by simp
qed

lemma norm_fold_id:
  "\<forall>c\<in>set xs. good_comp c \<Longrightarrow> foldl (norm_step i) acc xs = acc @ xs"
  by (induction xs arbitrary: acc) (auto simp: norm_step_def good_comp_def)

lemma split_sep_slashes: "split_sep (replicate i SLASH @ s) = replicate i [] @ split_sep s"
  by (induction i) auto

lemma norm_fold_skip: "foldl (norm_step k) acc (replicate i [] @ xs) = foldl (norm_step k) acc xs"
  by (induction i) (auto simp: norm_step_def)

lemma good_no_slash: "\<forall>c\<in>set cs. good_comp c \<Longrightarrow> \<forall>c\<in>set cs. SLASH \<notin> set c"
  by (auto simp: good_comp_def)

lemma norm_fold_join:
  assumes "\<forall>c\<in>set cs. good_comp c"
  shows "foldl (norm_step k) [] (split_sep (join_sep cs)) = cs"
proof (cases "cs = []")
  case True then show ?thesis by (simp add: norm_step_def)
next
  case False
  then have "split_sep (join_sep cs) = cs"
    using assms by (intro split_sep_join_sep good_no_slash) auto
  then show ?thesis using norm_fold_id[OF assms, of k "[]"] by simp
qed

lemma filter_split_join:
  assumes "\<forall>c\<in>set cs. good_comp c"
  shows "filter (\<lambda>x. x \<noteq> []) (split_sep (join_sep cs)) = cs"
proof (cases "cs = []")
  case True then show ?thesis by simp
next
  case False
  then have "split_sep (join_sep cs) = cs"
    using assms by (intro split_sep_join_sep good_no_slash) auto
  moreover have "filter (\<lambda>x. x \<noteq> []) cs = cs"
    using assms by (auto simp: good_comp_def filter_id_conv)
  ultimately show ?thesis by simp
qed

text \<open>The components normpath keeps of an absolute path.\<close>

definition norm_comps :: "string \<Rightarrow> string list" where
  "norm_comps q = foldl (norm_step 1) [] (split_sep q)"

lemma norm_step_pos: "0 < i \<Longrightarrow> 0 < j \<Longrightarrow> norm_step i acc x = norm_step j acc x"
  by (auto simp: norm_step_def)

lemma norm_fold_pos: "0 < i \<Longrightarrow> 0 < j \<Longrightarrow> foldl (norm_step i) acc xs = foldl (norm_step j) acc xs"
  by (induction xs arbitrary: acc) (auto simp: norm_step_pos[of i j])

lemma norm_comps_good: "\<forall>c\<in>set (norm_comps q). good_comp c"
  unfolding norm_comps_def
  by (rule norm_fold_good) (auto dest: split_sep_parts)

lemma normpath_abs:
  assumes "isabs q"
  shows "\<exists>i\<in>{1, 2}. normpath q = replicate i SLASH @ join_sep (norm_comps q)"
proof -
  from assms obtain r where q: "q = SLASH # r"
    by (cases q) (auto simp: isabs_def)
  define i :: nat where "i = (if prefix ''//'' q \<and> \<not> prefix ''///'' q then 2 else 1)"
  have i: "i \<in> {1, 2}" "0 < i" by (auto simp: i_def)
  have "foldl (norm_step i) [] (split_sep q) = norm_comps q"
    unfolding norm_comps_def using i(2) by (intro norm_fold_pos) auto
  then have "normpath q = replicate i SLASH @ join_sep (norm_comps q)"
    using i(2) unfolding normpath_def i_def q by (auto simp: Let_def)
  then show ?thesis using i(1) by blast
qed

lemma path_list_of_normal:
  assumes "\<forall>c\<in>set cs. good_comp c"
  shows "filter (\<lambda>x. x \<noteq> []) (split_sep (replicate i SLASH @ join_sep cs)) = cs"
  by (simp add: split_sep_slashes filter_split_join[OF assms])

lemma norm_comps_of_normal:
  assumes "\<forall>c\<in>set cs. good_comp c"
  shows "norm_comps (replicate i SLASH @ join_sep cs) = cs"
  unfolding norm_comps_def
  by (simp only: split_sep_slashes norm_fold_skip norm_fold_join[OF assms])

lemma isabs_join_cwd: "isabs c \<Longrightarrow> isabs (join c [p])"
  by (cases c) (auto simp: isabs_def join_def join2_def)

definition abs_arg :: "env \<Rightarrow> string \<Rightarrow> string" where
  "abs_arg e p = (if \<not> isabs p then join (cwd e) [p] else p)"

lemma isabs_abs_arg: "isabs (cwd e) \<Longrightarrow> isabs (abs_arg e p)"
  by (auto simp: abs_arg_def isabs_join_cwd)

lemma abspath_normal:
  assumes "isabs (cwd e)"
  shows "\<exists>i\<in>{1, 2}. abspath e p = replicate i SLASH @ join_sep (norm_comps (abs_arg e p))"
  using normpath_abs[OF isabs_abs_arg[OF assms, of p]] by (simp add: abspath_def abs_arg_def)

lemma path_list_norm_comps:
  assumes "isabs (cwd e)"
  shows "path_list e p = norm_comps (abs_arg e p)"
proof -
  from abspath_normal[OF assms, of p] obtain i where
    i: "abspath e p = replicate i SLASH @ join_sep (norm_comps (abs_arg e p))" by blast
  show ?thesis
    unfolding path_list_def i by (rule path_list_of_normal[OF norm_comps_good])
qed

lemma isabs_abspath: "isabs (cwd e) \<Longrightarrow> isabs (abspath e p)"
  using abspath_normal[of e p] by (auto simp: isabs_def numeral_2_eq_2)

lemma path_list_abspath:
  assumes "isabs (cwd e)"
  shows "path_list e (abspath e p) = path_list e p"
proof -
  from abspath_normal[OF assms, of p] obtain i where
    i: "abspath e p = replicate i SLASH @ join_sep (norm_comps (abs_arg e p))" by blast
  have "abs_arg e (abspath e p) = abspath e p"
    using isabs_abspath[OF assms] by (simp add: abs_arg_def)
  then have "path_list e (abspath e p) = norm_comps (abspath e p)"
    using path_list_norm_comps[OF assms, of "abspath e p"] by simp
  also have "\<dots> = norm_comps (abs_arg e p)"
    unfolding i by (rule norm_comps_of_normal[OF norm_comps_good])
  finally show ?thesis using path_list_norm_comps[OF assms, of p] by simp
qed

lemma abspath_root: "abspath e ''/'' = ''/''"
  by (simp add: abspath_def isabs_def normpath_def norm_step_def)

lemma path_list_root: "path_list e ''/'' = []"
  by (simp add: path_list_def abspath_def isabs_def normpath_def norm_step_def)

text \<open>The source path relative to the file-system root, from its components.\<close>

definition rel_str :: "string list \<Rightarrow> string" where
  "rel_str pl = (if pl = [] then ''.'' else join_sep pl)"

lemma good_comp_ends: "good_comp c \<Longrightarrow> c \<noteq> [] \<and> hd c \<noteq> SLASH \<and> last c \<noteq> SLASH"
  unfolding good_comp_def by (metis hd_in_set last_in_set)

lemma path_list_good: "isabs (cwd e) \<Longrightarrow> \<forall>c\<in>set (path_list e p). good_comp c"
  using norm_comps_good by (simp add: path_list_norm_comps)

lemma join_sep_Cons: "join_sep (r # rs) = r @ concat (map ((#) SLASH) rs)"
  by (induction rs arbitrary: r) auto

lemma foldl_join2:
  "acc \<noteq> [] \<Longrightarrow> last acc \<noteq> SLASH \<Longrightarrow> \<forall>c\<in>set rs. good_comp c \<Longrightarrow>
     foldl join2 acc rs = acc @ concat (map ((#) SLASH) rs)"
proof (induction rs arbitrary: acc)
  case Nil then show ?case by simp
next
  case (Cons r rs)
  from Cons.prems have r: "r \<noteq> []" "hd r \<noteq> SLASH" "last r \<noteq> SLASH"
    using good_comp_ends[of r] by auto
  then have "join2 acc r = acc @ SLASH # r"
    using Cons.prems(1,2) by (cases r) (auto simp: join2_def suffix_def)
  moreover have "last (acc @ SLASH # r) \<noteq> SLASH" using r by simp
  ultimately show ?case using Cons.IH[of "acc @ SLASH # r"] Cons.prems(3) by simp
qed

lemma join_good: "\<forall>c\<in>set (r # rs). good_comp c \<Longrightarrow> join r rs = join_sep (r # rs)"
  unfolding join_def join_sep_Cons
  by (rule foldl_join2) (use good_comp_ends[of r] in auto)

lemma relpath_root:
  assumes "isabs (cwd e)"
  shows "relpath e (abspath e p) (abspath e ''/'') = Inr (rel_str (path_list e p))"
proof -
  have ne: "abspath e p \<noteq> []" using isabs_abspath[OF assms, of p] by (auto simp: isabs_def)
  have good: "\<forall>c\<in>set (path_list e p). good_comp c"
    by (rule path_list_good[OF assms])
  show ?thesis
  proof (cases "path_list e p")
    case Nil
    then show ?thesis
      using ne by (simp add: relpath_def abspath_root path_list_root path_list_abspath[OF assms] rel_str_def)
  next
    case (Cons r rs)
    then have "join r rs = join_sep (r # rs)" using good by (intro join_good) simp
    then show ?thesis
      using ne Cons by (simp add: relpath_def abspath_root path_list_root path_list_abspath[OF assms] rel_str_def)
  qed
qed

lemma translate_eq:
  assumes "isabs (cwd e)"
  shows "translate_to_temp_path e p = Inr (join (tmpdir e) [''shellpy'', username e, rel_str (path_list e p)])"
  by (simp add: translate_to_temp_path_def relpath_root[OF assms])

lemma rel_str_inj:
  assumes "\<forall>c\<in>set a. good_comp c" "\<forall>c\<in>set b. good_comp c" "rel_str a = rel_str b"
  shows "a = b"
proof -
  have dot: "\<And>cs. \<forall>c\<in>set cs. good_comp c \<Longrightarrow> cs \<noteq> [] \<Longrightarrow> join_sep cs \<noteq> ''.''"
  proof
    fix cs assume g: "\<forall>c\<in>set cs. good_comp c" and ne: "cs \<noteq> []" and eq: "join_sep cs = ''.''"
    have "split_sep (join_sep cs) = cs" using g ne by (intro split_sep_join_sep good_no_slash) auto
    then have "cs = [''.'']" using eq by simp
    then show False using g by (simp add: good_comp_def)
  qed
  show ?thesis
  proof (cases "a = []")
    case True
    then show ?thesis using assms(3) dot[OF assms(2)] by (auto simp: rel_str_def split: if_splits)
  next
    case False
    then have b: "b \<noteq> []" using assms(3) dot[OF assms(1)] by (auto simp: rel_str_def split: if_splits)
    have sa: "split_sep (join_sep a) = a"
      using assms(1) False by (intro split_sep_join_sep good_no_slash) auto
    have sb: "split_sep (join_sep b) = b"
      using assms(2) b by (intro split_sep_join_sep good_no_slash) auto
    have "join_sep a = join_sep b" using assms(3) False b by (simp add: rel_str_def)
    then have "split_sep (join_sep a) = split_sep (join_sep b)" by (rule arg_cong)
    then show ?thesis by (simp only: sa sb)
  qed
qed

lemma rel_str_not_abs: "\<forall>c\<in>set pl. good_comp c \<Longrightarrow> \<not> prefix ''/'' (rel_str pl)"
proof (cases pl)
  case Nil then show ?thesis by (simp add: rel_str_def)
next
  case (Cons a list)
  assume "\<forall>c\<in>set pl. good_comp c"
  then have "a \<noteq> []" "hd a \<noteq> SLASH" using good_comp_ends[of a] Cons by auto
  then show ?thesis using Cons by (cases a) (auto simp: rel_str_def join_sep_Cons)
qed

lemma join2_inj: "\<not> prefix ''/'' a \<Longrightarrow> \<not> prefix ''/'' b \<Longrightarrow> join2 B a = join2 B b \<Longrightarrow> a = b"
  by (auto simp: join2_def split: if_splits)

lemma translate_inj:
  assumes "isabs (cwd e)"
  shows "translate_to_temp_path e p = translate_to_temp_path e q \<longleftrightarrow> path_list e p = path_list e q"
proof
  assume "translate_to_temp_path e p = translate_to_temp_path e q"
  then have "join2 (join2 (join2 (tmpdir e) ''shellpy'') (username e)) (rel_str (path_list e p))
           = join2 (join2 (join2 (tmpdir e) ''shellpy'') (username e)) (rel_str (path_list e q))"
    by (simp add: translate_eq[OF assms] join_def)
  moreover have gp: "\<forall>c\<in>set (path_list e p). good_comp c" and gq: "\<forall>c\<in>set (path_list e q). good_comp c"
    by (rule path_list_good[OF assms])+
  ultimately have "rel_str (path_list e p) = rel_str (path_list e q)"
    by (intro join2_inj[OF rel_str_not_abs rel_str_not_abs])
  then show "path_list e p = path_list e q" by (rule rel_str_inj[OF gp gq])
next
  assume "path_list e p = path_list e q"
  then show "translate_to_temp_path e p = translate_to_temp_path e q"
    by (simp add: translate_eq[OF assms])
qed

text \<open>In a file system without symbolic links a path that resolves names the node its
  normal form spells.\<close>

lemma walk_norm:
  "''..'' \<notin> set cur \<Longrightarrow> walk f cur cs = Some k \<Longrightarrow> k = foldl (norm_step 1) cur cs"
proof (induction cs arbitrary: cur)
  case Nil then show ?case by simp
next
  case (Cons c cs)
  show ?case
  proof (cases "c = [] \<or> c = ''.''")
    case True
    then show ?thesis using Cons by (auto simp: norm_step_def split: if_splits)
  next
    case False
    note nd = False
    show ?thesis
    proof (cases "c = ''..''")
      case True
      have b: "''..'' \<notin> set (butlast cur)" using Cons.prems(1) by (auto dest: in_set_butlastD)
      have l: "cur \<noteq> [] \<Longrightarrow> last cur \<noteq> ''..''" using Cons.prems(1) last_in_set by metis
      have "walk f (butlast cur) cs = Some k" using Cons.prems(2) True by (auto split: if_splits)
      from Cons.IH[OF b this] have "k = foldl (norm_step 1) (butlast cur) cs" .
      moreover have "norm_step 1 cur c = butlast cur" using True l by (auto simp: norm_step_def)
      ultimately show ?thesis by simp
    next
      case False
      have b: "''..'' \<notin> set (cur @ [c])" using Cons.prems(1) False by auto
      have "walk f (cur @ [c]) cs = Some k" using Cons.prems(2) False nd by (auto split: if_splits)
      from Cons.IH[OF b this] have "k = foldl (norm_step 1) (cur @ [c]) cs" .
      moreover have "norm_step 1 cur c = cur @ [c]" using False nd by (auto simp: norm_step_def)
      ultimately show ?thesis by simp
    qed
  qed
qed

lemma good_no_dotdot: "\<forall>c\<in>set cs. good_comp c \<Longrightarrow> ''..'' \<notin> set cs"
  by (auto simp: good_comp_def)

lemma abs_arg_rel:
  assumes "isabs (cwd e)" "\<not> isabs p"
  shows "norm_comps (abs_arg e p) = foldl (norm_step 1) (norm_comps (cwd e)) (split_sep p)"
proof (cases "suffix ''/'' (cwd e)")
  case True
  then obtain c' where c: "cwd e = c' @ ''/''" by (auto simp: suffix_def)
  have "abs_arg e p = c' @ SLASH # p"
    using assms(2) True c by (simp add: abs_arg_def join_def join2_def isabs_def)
  then have "norm_comps (abs_arg e p) = foldl (norm_step 1) (foldl (norm_step 1) [] (split_sep c')) (split_sep p)"
    by (simp add: norm_comps_def split_sep_slash_append)
  moreover have "norm_comps (cwd e) = foldl (norm_step 1) [] (split_sep c')"
    using split_sep_slash_append[of c' "[]"] by (simp add: norm_comps_def c norm_step_def)
  ultimately show ?thesis by simp
next
  case False
  have ne: "cwd e \<noteq> []" using assms(1) by (auto simp: isabs_def)
  have "abs_arg e p = cwd e @ SLASH # p"
    using assms(2) False ne by (simp add: abs_arg_def join_def join2_def isabs_def)
  then show ?thesis by (simp add: norm_comps_def split_sep_slash_append)
qed

lemma resolve_path_list:
  assumes "isabs (cwd e)" "resolve e f p = Some k"
  shows "k = path_list e p"
proof (cases "isabs p")
  case True
  then have "walk f [] (split_sep p) = Some k" using assms(2) by (auto simp: resolve_def split: if_splits)
  then have "k = norm_comps p" unfolding norm_comps_def by (intro walk_norm) auto
  then show ?thesis using True by (simp add: path_list_norm_comps[OF assms(1)] abs_arg_def)
next
  case False
  from assms(2) False obtain ck where ck: "walk f [] (split_sep (cwd e)) = Some ck"
    and k: "walk f ck (split_sep p) = Some k"
    by (auto simp: resolve_def split: if_splits option.splits)
  from ck have c: "ck = norm_comps (cwd e)" unfolding norm_comps_def by (intro walk_norm) auto
  have "''..'' \<notin> set ck" unfolding c by (rule good_no_dotdot[OF norm_comps_good])
  from walk_norm[OF this k] have "k = foldl (norm_step 1) (norm_comps (cwd e)) (split_sep p)"
    by (simp add: c)
  then show ?thesis using abs_arg_rel[OF assms(1) False] by (simp add: path_list_norm_comps[OF assms(1)])
qed

text \<open>The components of the directory the artifacts of the environment's user are
  stored under.\<close>

definition sandbox_comps :: "env \<Rightarrow> string list" where
  "sandbox_comps e = path_list e (tmpdir e) @ [''shellpy'', username e]"

lemma suffix_slash: "suffix ''/'' s \<longleftrightarrow> s \<noteq> [] \<and> last s = SLASH"
  by (cases s rule: rev_cases) (auto simp: suffix_def)

lemma rel_str_comps:
  assumes "\<forall>c\<in>set pl. good_comp c"
  shows "foldl (norm_step 1) acc (split_sep (rel_str pl)) = acc @ pl"
proof (cases "pl = []")
  case True then show ?thesis by (simp add: rel_str_def norm_step_def)
next
  case False
  then have "split_sep (join_sep pl) = pl"
    using assms by (intro split_sep_join_sep good_no_slash) auto
  then show ?thesis using False norm_fold_id[OF assms, of 1 acc] by (simp add: rel_str_def)
qed

lemma join_tmpdir:
  assumes "isabs t" "good_comp u" "\<forall>c\<in>set pl. good_comp c"
  shows "\<exists>t'. join t [''shellpy'', u, rel_str pl] = t' @ ''/shellpy/'' @ u @ SLASH # rel_str pl
            \<and> norm_comps t' = norm_comps t \<and> (t' = [] \<or> isabs t')"
proof -
  have u: "\<not> prefix ''/'' u" "u \<noteq> []" "last u \<noteq> SLASH"
    using good_comp_ends[OF assms(2)] by (cases u; auto)+
  have tne: "t \<noteq> []" using assms(1) by (auto simp: isabs_def)
  obtain t' where 1: "join2 t ''shellpy'' = t' @ ''/shellpy''" and n: "norm_comps t' = norm_comps t"
    and a: "t' = [] \<or> isabs t'"
  proof (cases "suffix ''/'' t")
    case True
    then obtain t' where t: "t = t' @ ''/''" by (auto simp: suffix_def)
    have "join2 t ''shellpy'' = t' @ ''/shellpy''" using True by (simp add: join2_def t)
    moreover have "norm_comps t' = norm_comps t"
      using split_sep_slash_append[of t' "[]"] by (simp add: norm_comps_def t norm_step_def)
    moreover have "t' = [] \<or> isabs t'"
      using assms(1) by (cases t') (auto simp: isabs_def t)
    ultimately show ?thesis using that by blast
  next
    case False
    then have "join2 t ''shellpy'' = t @ ''/shellpy''" using tne by (simp add: join2_def)
    then show ?thesis using that assms(1) by blast
  qed
  have 2: "join2 (t' @ ''/shellpy'') u = t' @ ''/shellpy/'' @ u"
    using u(1) by (simp add: join2_def suffix_slash)
  have "\<not> suffix ''/'' (t' @ ''/shellpy/'' @ u)"
    using u(2,3) by (simp add: suffix_slash)
  then have 3: "join2 (t' @ ''/shellpy/'' @ u) (rel_str pl) = t' @ ''/shellpy/'' @ u @ SLASH # rel_str pl"
    using rel_str_not_abs[OF assms(3)] u(2) by (simp add: join2_def)
  have "join t [''shellpy'', u, rel_str pl] = t' @ ''/shellpy/'' @ u @ SLASH # rel_str pl"
    by (simp only: join_def foldl.simps 1 2 3)
  then show ?thesis using n a by blast
qed

lemma sandbox_path_comps:
  assumes "good_comp u" "\<forall>c\<in>set pl. good_comp c"
  shows "norm_comps (t' @ ''/shellpy/'' @ u @ SLASH # rel_str pl) = norm_comps t' @ [''shellpy'', u] @ pl"
proof -
  have su: "split_sep u = [u]" using assms(1) by (intro split_sep_no_slash) (simp add: good_comp_def)
  have ss: "split_sep ''shellpy'' = [''shellpy'']" by simp
  have "t' @ ''/shellpy/'' @ u @ SLASH # rel_str pl = t' @ SLASH # (''shellpy'' @ SLASH # (u @ SLASH # rel_str pl))"
    by simp
  then have "split_sep (t' @ ''/shellpy/'' @ u @ SLASH # rel_str pl)
      = split_sep t' @ [''shellpy''] @ [u] @ split_sep (rel_str pl)"
    by (simp only: split_sep_slash_append su ss)
  moreover have "norm_step 1 (norm_step 1 (norm_comps t') ''shellpy'') u = norm_comps t' @ [''shellpy'', u]"
    using assms(1) by (simp add: norm_step_def good_comp_def)
  ultimately show ?thesis
    using rel_str_comps[OF assms(2), of "norm_comps t' @ [''shellpy'', u]"]
    by (simp add: norm_comps_def)
qed

lemma translate_components:
  assumes "isabs (cwd e)" "isabs (tmpdir e)" "good_comp (username e)"
  shows "\<exists>r. translate_to_temp_path e p = Inr r \<and> path_list e r = sandbox_comps e @ path_list e p"
proof -
  let ?pl = "path_list e p"
  have g: "\<forall>c\<in>set ?pl. good_comp c" by (rule path_list_good[OF assms(1)])
  from join_tmpdir[OF assms(2,3) g] obtain t' where
    r: "join (tmpdir e) [''shellpy'', username e, rel_str ?pl]
          = t' @ ''/shellpy/'' @ username e @ SLASH # rel_str ?pl"
    and n: "norm_comps t' = norm_comps (tmpdir e)" and a: "t' = [] \<or> isabs t'" by blast
  let ?r = "t' @ ''/shellpy/'' @ username e @ SLASH # rel_str ?pl"
  have "isabs ?r"
    using a by (cases t') (auto simp: isabs_def)
  then have "path_list e ?r = norm_comps ?r"
    by (simp add: path_list_norm_comps[OF assms(1)] abs_arg_def)
  also have "\<dots> = norm_comps t' @ [''shellpy'', username e] @ ?pl"
    by (rule sandbox_path_comps[OF assms(3) g])
  also have "\<dots> = sandbox_comps e @ ?pl"
    using assms(2) by (simp add: n sandbox_comps_def path_list_norm_comps[OF assms(1)] abs_arg_def)
  finally show ?thesis using translate_eq[OF assms(1), of p] r by simp
qed

text \<open>The directory the artifacts of the environment's user are stored under, as a
  string.\<close>

definition sandbox_root :: "env \<Rightarrow> string" where
  "sandbox_root e = tmpdir e @ ''/shellpy/'' @ username e @ ''/''"

lemma translate_shape:
  assumes "isabs (cwd e)" "tmpdir e \<noteq> []" "\<not> suffix ''/'' (tmpdir e)" "good_comp (username e)"
  shows "translate_to_temp_path e p = Inr (sandbox_root e @ rel_str (path_list e p))"
proof -
  let ?r = "rel_str (path_list e p)"
  have u: "\<not> prefix ''/'' (username e)" "username e \<noteq> []" "last (username e) \<noteq> SLASH"
    using good_comp_ends[OF assms(4)] by (cases "username e"; auto)+
  have 1: "join2 (tmpdir e) ''shellpy'' = tmpdir e @ ''/shellpy''"
    using assms(2,3) by (simp add: join2_def)
  have 2: "join2 (tmpdir e @ ''/shellpy'') (username e) = tmpdir e @ ''/shellpy/'' @ username e"
    using u(1) by (simp add: join2_def suffix_slash)
  have "\<not> suffix ''/'' (tmpdir e @ ''/shellpy/'' @ username e)"
    using u(2,3) by (simp add: suffix_slash)
  then have 3: "join2 (tmpdir e @ ''/shellpy/'' @ username e) ?r = sandbox_root e @ ?r"
    using rel_str_not_abs[OF path_list_good[OF assms(1)], of p] u(2)
    by (simp add: join2_def sandbox_root_def)
  show ?thesis
    by (simp only: translate_eq[OF assms(1)] join_def foldl.simps 1 2 3)
qed

lemma path_list_username: "path_list (e\<lparr>username := u\<rparr>) p = path_list e p"
  by (simp add: path_list_def abspath_def)

lemma sandbox_comps_username:
  "sandbox_comps (e\<lparr>username := u\<rparr>) = path_list e (tmpdir e) @ [''shellpy'', u]"
  by (simp add: sandbox_comps_def path_list_username)

lemma sandbox_comps_disjoint:
  assumes "u' \<noteq> username e"
  shows "\<not> (prefix (sandbox_comps e) k \<and> prefix (sandbox_comps (e\<lparr>username := u'\<rparr>)) k)"
proof
  assume a: "prefix (sandbox_comps e) k \<and> prefix (sandbox_comps (e\<lparr>username := u'\<rparr>)) k"
  from a obtain x where x: "k = sandbox_comps e @ x" unfolding prefix_def by blast
  from a obtain y where y: "k = sandbox_comps (e\<lparr>username := u'\<rparr>) @ y" unfolding prefix_def by blast
  from x y have "path_list e (tmpdir e) @ [''shellpy'', username e] @ x
           = path_list e (tmpdir e) @ [''shellpy'', u'] @ y"
    by (simp add: sandbox_comps_def path_list_username)
  then show False using assms by simp
qed

text \<open>
  C4 (as amended). In a process whose working directory is absolute, path translation
  is a function of the environment and the path (so translating a path twice gives the
  same bytes) that never fails; it is injective up to normalisation: two paths translate
  to the same sandbox path exactly when \<^verbatim>\<open>abspath\<close> gives them the same components
  (\<^const>\<open>path_list\<close>). With a temp root that is not empty and does not end in a slash and a
  user name that names one directory entry (not empty, not \<^verbatim>\<open>.\<close> or \<^verbatim>\<open>..\<close>, no slash:
  \<^const>\<open>good_comp\<close>), the result is the string temp root, \<^verbatim>\<open>/shellpy/\<close>, user, \<^verbatim>\<open>/\<close>, source path
  relative to the file-system root. With an absolute temp root and such a user name, the
  components of the result are those of the temp root, \<^verbatim>\<open>shellpy\<close>, the user name and those
  of the source path, and that is the node the result names in every file system in
  which it resolves; the translations for another such user lie under that user's
  sandbox directory and never at or below this user's, and no node lies below both
  sandbox directories.
\<close>

theorem translate_to_temp_path_normalised:
  assumes "isabs (cwd e)"
  shows "translate_to_temp_path e p
           = Inr (join (tmpdir e) [''shellpy'', username e, rel_str (path_list e p)])
    \<and> (translate_to_temp_path e p = translate_to_temp_path e q
          \<longleftrightarrow> path_list e p = path_list e q)
    \<and> (tmpdir e \<noteq> [] \<and> \<not> suffix ''/'' (tmpdir e) \<and> good_comp (username e) \<longrightarrow>
          translate_to_temp_path e p = Inr (sandbox_root e @ rel_str (path_list e p)))
    \<and> (isabs (tmpdir e) \<and> good_comp (username e) \<longrightarrow>
          (\<exists>r. translate_to_temp_path e p = Inr r
              \<and> path_list e r = sandbox_comps e @ path_list e p
              \<and> (\<forall>f k. resolve e f r = Some k \<longrightarrow> k = sandbox_comps e @ path_list e p))
          \<and> (\<forall>u'. good_comp u' \<and> u' \<noteq> username e \<longrightarrow>
                (\<exists>r'. translate_to_temp_path (e\<lparr>username := u'\<rparr>) q = Inr r'
                   \<and> path_list e r' = sandbox_comps (e\<lparr>username := u'\<rparr>) @ path_list e q
                   \<and> \<not> prefix (sandbox_comps e) (path_list e r')
                   \<and> (\<forall>f k. resolve e f r' = Some k \<longrightarrow> \<not> prefix (sandbox_comps e) k))
                \<and> (\<forall>k. \<not> (prefix (sandbox_comps e) k
                          \<and> prefix (sandbox_comps (e\<lparr>username := u'\<rparr>)) k))))"
proof -
  have 1: "translate_to_temp_path e p
           = Inr (join (tmpdir e) [''shellpy'', username e, rel_str (path_list e p)])"
    by (rule translate_eq[OF assms])
  have 2: "translate_to_temp_path e p = translate_to_temp_path e q
          \<longleftrightarrow> path_list e p = path_list e q"
    by (rule translate_inj[OF assms])
  have 3: "tmpdir e \<noteq> [] \<and> \<not> suffix ''/'' (tmpdir e) \<and> good_comp (username e) \<longrightarrow>
          translate_to_temp_path e p = Inr (sandbox_root e @ rel_str (path_list e p))"
    using translate_shape[OF assms] by blast
  have 4: "(\<exists>r. translate_to_temp_path e p = Inr r
              \<and> path_list e r = sandbox_comps e @ path_list e p
              \<and> (\<forall>f k. resolve e f r = Some k \<longrightarrow> k = sandbox_comps e @ path_list e p))
          \<and> (\<forall>u'. good_comp u' \<and> u' \<noteq> username e \<longrightarrow>
                (\<exists>r'. translate_to_temp_path (e\<lparr>username := u'\<rparr>) q = Inr r'
                   \<and> path_list e r' = sandbox_comps (e\<lparr>username := u'\<rparr>) @ path_list e q
                   \<and> \<not> prefix (sandbox_comps e) (path_list e r')
                   \<and> (\<forall>f k. resolve e f r' = Some k \<longrightarrow> \<not> prefix (sandbox_comps e) k))
                \<and> (\<forall>k. \<not> (prefix (sandbox_comps e) k
                          \<and> prefix (sandbox_comps (e\<lparr>username := u'\<rparr>)) k)))"
    if h: "isabs (tmpdir e) \<and> good_comp (username e)"
  proof (intro conjI allI impI)
    from translate_components[OF assms, of p] h obtain r where
      r: "translate_to_temp_path e p = Inr r" "path_list e r = sandbox_comps e @ path_list e p"
      by blast
    have "\<forall>f k. resolve e f r = Some k \<longrightarrow> k = sandbox_comps e @ path_list e p"
      using resolve_path_list[OF assms] r(2) by metis
    then show "\<exists>r. translate_to_temp_path e p = Inr r
              \<and> path_list e r = sandbox_comps e @ path_list e p
              \<and> (\<forall>f k. resolve e f r = Some k \<longrightarrow> k = sandbox_comps e @ path_list e p)"
      using r by blast
  next
    fix u' assume u: "good_comp u' \<and> u' \<noteq> username e"
    let ?e = "e\<lparr>username := u'\<rparr>"
    have "isabs (cwd ?e)" "isabs (tmpdir ?e)" "good_comp (username ?e)"
      using assms h u by simp_all
    from translate_components[OF this, of q] obtain r' where
      r: "translate_to_temp_path ?e q = Inr r'" "path_list e r' = sandbox_comps ?e @ path_list e q"
      by (auto simp: path_list_username)
    have d: "\<not> prefix (sandbox_comps e) (path_list e r')"
      using sandbox_comps_disjoint[of u' e "path_list e r'"] u r(2) by simp
    have "\<forall>f k. resolve e f r' = Some k \<longrightarrow> \<not> prefix (sandbox_comps e) k"
      using resolve_path_list[OF assms] d by metis
    then show "\<exists>r'. translate_to_temp_path ?e q = Inr r'
                   \<and> path_list e r' = sandbox_comps ?e @ path_list e q
                   \<and> \<not> prefix (sandbox_comps e) (path_list e r')
                   \<and> (\<forall>f k. resolve e f r' = Some k \<longrightarrow> \<not> prefix (sandbox_comps e) k)"
      using r d by blast
    fix k
    show "\<not> (prefix (sandbox_comps e) k \<and> prefix (sandbox_comps ?e) k)"
      using u by (intro sandbox_comps_disjoint) simp
  qed
  show ?thesis using 1 2 3 4 by blast
qed

text \<open>The theorem for the user \<^verbatim>\<open>u\<close> in \<^verbatim>\<open>/home/u\<close>: a relative and a non-normalised
  spelling of one file, and the same file translated for the user \<^verbatim>\<open>v\<close>.\<close>

theorem translate_to_temp_path_normalised_witness:
  "translate_to_temp_path ex_env ''a.spy'' = Inr ''/tmp/shellpy/u/home/u/a.spy''
   \<and> translate_to_temp_path ex_env ''a.spy'' = translate_to_temp_path ex_env ''/home/u/./a.spy''
   \<and> path_list ex_env ''/tmp/shellpy/u/home/u/a.spy''
       = [''tmp'', ''shellpy'', ''u'', ''home'', ''u'', ''a.spy'']
   \<and> translate_to_temp_path (ex_env\<lparr>username := ''v''\<rparr>) ''/home/u/./a.spy''
       = Inr ''/tmp/shellpy/v/home/u/a.spy''
   \<and> \<not> prefix [''tmp'', ''shellpy'', ''u''] (path_list ex_env ''/tmp/shellpy/v/home/u/a.spy'')"
proof -
  have c: "isabs (cwd ex_env)" by code_simp
  have w: "tmpdir ex_env \<noteq> [] \<and> \<not> suffix ''/'' (tmpdir ex_env) \<and> good_comp (username ex_env)"
    by code_simp
  have h: "isabs (tmpdir ex_env) \<and> good_comp (username ex_env)"
    by code_simp
  have v: "good_comp ''v'' \<and> ''v'' \<noteq> username ex_env"
    by code_simp
  have pl: "path_list ex_env ''a.spy'' = [''home'', ''u'', ''a.spy'']"
       "path_list ex_env ''/home/u/./a.spy'' = [''home'', ''u'', ''a.spy'']"
    by code_simp+
  have s: "sandbox_root ex_env = ''/tmp/shellpy/u/''" by code_simp
  have sc: "sandbox_comps ex_env = [''tmp'', ''shellpy'', ''u'']" by code_simp
  have tv: "translate_to_temp_path (ex_env\<lparr>username := ''v''\<rparr>) ''/home/u/./a.spy''
       = Inr ''/tmp/shellpy/v/home/u/a.spy''"
    by code_simp
  note t = translate_to_temp_path_normalised[OF c, of "''a.spy''" "''/home/u/./a.spy''"]
  note t2 = t[THEN conjunct2, THEN conjunct1]
  note t3 = t[THEN conjunct2, THEN conjunct2, THEN conjunct1, rule_format, OF w]
  note t4 = t[THEN conjunct2, THEN conjunct2, THEN conjunct2, rule_format, OF h]
  have r: "sandbox_root ex_env @ rel_str (path_list ex_env ''a.spy'') = ''/tmp/shellpy/u/home/u/a.spy''"
    by (simp add: s pl rel_str_def)
  have 1: "translate_to_temp_path ex_env ''a.spy'' = Inr ''/tmp/shellpy/u/home/u/a.spy''"
    using t3 by (simp only: r)
  have "path_list ex_env ''a.spy'' = path_list ex_env ''/home/u/./a.spy''"
    by (simp only: pl)
  then have 2: "translate_to_temp_path ex_env ''a.spy''
      = translate_to_temp_path ex_env ''/home/u/./a.spy''"
    by (simp only: t2)
  from t4[THEN conjunct1] obtain r1 where
    r1: "translate_to_temp_path ex_env ''a.spy'' = Inr r1"
        "path_list ex_env r1 = sandbox_comps ex_env @ path_list ex_env ''a.spy''"
    by blast
  from r1(1) 1 have "r1 = ''/tmp/shellpy/u/home/u/a.spy''" by simp
  with r1(2) have 3: "path_list ex_env ''/tmp/shellpy/u/home/u/a.spy''
       = [''tmp'', ''shellpy'', ''u'', ''home'', ''u'', ''a.spy'']"
    by (simp add: sc pl)
  from t4[THEN conjunct2, rule_format, OF v, THEN conjunct1] obtain r2 where
    r2: "translate_to_temp_path (ex_env\<lparr>username := ''v''\<rparr>) ''/home/u/./a.spy'' = Inr r2"
        "\<not> prefix (sandbox_comps ex_env) (path_list ex_env r2)"
    by blast
  from r2(1) tv have e2: "r2 = ''/tmp/shellpy/v/home/u/a.spy''" by simp
  have 4: "\<not> prefix [''tmp'', ''shellpy'', ''u'']
      (path_list ex_env ''/tmp/shellpy/v/home/u/a.spy'')"
    using r2(2) unfolding sc e2 .
  show ?thesis by (rule conjI[OF 1 conjI[OF 2 conjI[OF 3 conjI[OF tv 4]]]])
qed

text \<open>C4 as stated fails: two distinct absolute paths with one translation.\<close>

theorem translate_to_temp_path_injective_counterexample:
  "isabs ''/a/b'' \<and> isabs ''/a//b'' \<and> ''/a/b'' \<noteq> ''/a//b''
   \<and> translate_to_temp_path ex_env ''/a/b'' = translate_to_temp_path ex_env ''/a//b''"
  by code_simp

section \<open>Writing the artifact: properties\<close>

lemma walk_cong:
  "(\<And>k. is_dir f k = is_dir g k) \<Longrightarrow> walk f cur cs = walk g cur cs"
  by (induction cs arbitrary: cur) simp_all

lemma resolve_cong:
  assumes "\<And>k. is_dir f k = is_dir g k"
  shows "resolve e f p = resolve e g p"
  unfolding resolve_def walk_cong[of f g, OF assms] by simp

lemma walk_mono:
  "(\<And>k. is_dir f k \<Longrightarrow> is_dir g k) \<Longrightarrow> walk f cur cs = Some k \<Longrightarrow> walk g cur cs = Some k"
  by (induction cs arbitrary: cur) (auto split: if_splits)

lemma resolve_mono:
  assumes "\<And>k. is_dir f k \<Longrightarrow> is_dir g k" "resolve e f p = Some k"
  shows "resolve e g p = Some k"
proof (cases "isabs p")
  case True
  then show ?thesis using assms(2) walk_mono[of f g, OF assms(1)]
    by (auto simp: resolve_def split: if_splits)
next
  case False
  from assms(2) False obtain ck where ck: "walk f [] (split_sep (cwd e)) = Some ck"
    and k: "walk f ck (split_sep p) = Some k" and ne: "p \<noteq> []" "isabs (cwd e)"
    by (auto simp: resolve_def split: if_splits option.splits)
  have "walk g [] (split_sep (cwd e)) = Some ck" using ck assms(1) by (rule walk_mono[rotated])
  moreover have "walk g ck (split_sep p) = Some k" using k assms(1) by (rule walk_mono[rotated])
  ultimately show ?thesis using False ne by (simp add: resolve_def)
qed

lemma is_dir_upd_regular:
  assumes "k \<noteq> []" "kind a = Regular d" "\<forall>n. f k = Some n \<longrightarrow> (\<exists>x. kind n = Regular x)"
  shows "is_dir (f(k \<mapsto> a)) k' = is_dir f k'"
  using assms by (auto simp: is_dir_def node_at_def split: option.splits)

lemma dirs_added_node: "dirs_added e m f f1 \<Longrightarrow> node_at f k = Some n \<Longrightarrow> node_at f1 k = Some n"
proof (cases "k = []")
  case True
  assume "node_at f k = Some n"
  then show ?thesis using True by (simp add: node_at_def)
next
  case False
  assume d: "dirs_added e m f f1" and n: "node_at f k = Some n"
  have fk: "f k = Some n" using n False by (simp add: node_at_def)
  from d[unfolded dirs_added_def]
  have "f1 k = f k
        \<or> (f k = None \<and> f1 k = Some \<lparr>kind = Directory, perm = of_nat m, st_mtime = clock e\<rparr>)"
    by (rule spec)
  then have "f1 k = f k" using fk by (elim disjE) simp_all
  then show ?thesis using False fk by (simp add: node_at_def)
qed

lemma dirs_added_is_dir: "dirs_added e m f f1 \<Longrightarrow> is_dir f k \<Longrightarrow> is_dir f1 k"
  unfolding is_dir_def
  by (cases "node_at f k") (auto dest: dirs_added_node)

text \<open>Making directories keeps every path that resolved resolving to the same node.\<close>

lemma lookup_mono:
  assumes "dirs_added e m f f1" "lookup e f p = Some n"
  shows "lookup e f1 p = Some n"
proof -
  from assms(2) obtain k where k: "resolve e f p = Some k" "node_at f k = Some n"
    by (auto simp: lookup_def split: option.splits)
  have "resolve e f1 p = Some k"
    using k(1) dirs_added_is_dir[OF assms(1)] by (rule resolve_mono[rotated])
  then show ?thesis using dirs_added_node[OF assms(1) k(2)] by (simp add: lookup_def)
qed

lemma open_read_mono:
  assumes "dirs_added e m f f1" "open_read e f p = Inr d"
  shows "open_read e f1 p = Inr d"
proof -
  from assms(2) obtain n where n: "lookup e f p = Some n" "kind n = Regular d"
    by (auto simp: open_read_def split: option.splits kind.splits)
  have "lookup e f1 p = Some n" using assms(1) n(1) by (rule lookup_mono)
  then show ?thesis using n(2) by (simp add: open_read_def)
qed

lemma mkdir_frame:
  assumes "mkdir e f p m = Inr f'"
  shows "\<exists>k. k \<noteq> [] \<and> f k = None
           \<and> f' = f(k \<mapsto> \<lparr>kind = Directory, perm = of_nat m, st_mtime = clock e\<rparr>)"
  using assms
  by (auto simp: mkdir_def node_at_def split: option.splits if_splits kind.splits)

lemma mkdir_error: "mkdir e f p m = Inl err \<Longrightarrow> err \<noteq> RuntimeError"
  by (auto simp: mkdir_def split: option.splits if_splits kind.splits)

lemma dirs_added_refl: "dirs_added e m f f"
  by (simp add: dirs_added_def)

lemma dirs_added_trans: "dirs_added e m f g \<Longrightarrow> dirs_added e m g h \<Longrightarrow> dirs_added e m f h"
  unfolding dirs_added_def by (metis option.distinct(1))

lemma dirs_added_mkdir: "mkdir e f p m = Inr f' \<Longrightarrow> dirs_added e m f f'"
  by (drule mkdir_frame) (auto simp: dirs_added_def split: if_splits)

lemma open_write_frame:
  assumes "open_write e f p d = Inr f'"
  shows "\<exists>k a dn. resolve e f p = Some k \<and> k \<noteq> [] \<and> f' = f(k \<mapsto> a) \<and> kind a = Regular d
           \<and> (\<forall>n. f k = Some n \<longrightarrow> perm a = perm n \<and> (\<exists>x. kind n = Regular x))
           \<and> node_at f (butlast k) = Some dn \<and> kind dn = Directory"
  using assms
  by (auto simp: open_write_def split: option.splits if_splits kind.splits)

lemma chmod_frame:
  assumes "chmod e f p m = Inr f'"
  shows "\<exists>k n. resolve e f p = Some k \<and> node_at f k = Some n
           \<and> f' = (if k = [] then f else f(k \<mapsto> n\<lparr>perm := of_nat m\<rparr>))"
  using assms by (auto simp: chmod_def split: option.splits)

lemma perm_of_st_mode: "(of_nat (st_mode n) :: 12 word) = perm n"
  by (cases "kind n") (simp_all add: st_mode_def)

lemma perm_of_st_mode_exec: "(of_nat (st_mode n OR S_IEXEC) :: 12 word) = perm n OR 64"
  by (simp add: of_nat_or_eq perm_of_st_mode S_IEXEC_def)

lemma get_header_error: "get_header e f p r = Inl err \<Longrightarrow> err \<noteq> RuntimeError"
  by (auto simp: get_header_def getmtime_def open_read_def Let_def
           split: sum.splits option.splits kind.splits)

text \<open>Writing a regular file where no directory is changes no path resolution.\<close>

lemma resolve_upd_regular:
  assumes "k \<noteq> []" "kind a = Regular d" "\<forall>n. f k = Some n \<longrightarrow> (\<exists>x. kind n = Regular x)"
  shows "resolve e (f(k \<mapsto> a)) p = resolve e f p"
  by (rule resolve_cong) (rule is_dir_upd_regular[of k a d f, OF assms])

lemma makedirs_frame:
  "makedirs e f name m = (r, f') \<Longrightarrow> dirs_added e m f f' \<and> r \<noteq> Some RuntimeError"
proof (induction e f name m arbitrary: r f' rule: makedirs.induct)
  case (1 e f name m)
  obtain head tail where sp: "makedirs_split name = (head, tail)"
    by (cases "makedirs_split name")
  have last_step: "\<And>g r f'. dirs_added e m f g \<Longrightarrow>
      (case mkdir e g name m of Inl err' \<Rightarrow> (Some err', g) | Inr f'' \<Rightarrow> (None, f'')) = (r, f')
      \<Longrightarrow> dirs_added e m f f' \<and> r \<noteq> Some RuntimeError"
    by (auto split: sum.splits dest: mkdir_error dirs_added_mkdir dirs_added_trans)
  show ?case
  proof (cases "head \<noteq> [] \<and> tail \<noteq> [] \<and> \<not> path_exists e f head")
    case False
    then have "(case mkdir e f name m of Inl err' \<Rightarrow> (Some err', f) | Inr f'' \<Rightarrow> (None, f''))
                 = (r, f')"
      using "1.prems" sp by (subst (asm) makedirs.simps) auto
    then show ?thesis by (rule last_step[OF dirs_added_refl])
  next
    case True
    obtain r1 f1 where rec: "makedirs e f head m = (r1, f1)"
      by (cases "makedirs e f head m")
    have ih: "dirs_added e m f f1 \<and> r1 \<noteq> Some RuntimeError"
      using "1.IH"[OF sp[symmetric] True rec] .
    have res: "(case (r1, f1) of
                  (Some err, f') \<Rightarrow>
                    if err \<noteq> OSError_EEXIST then (Some err, f')
                    else if tail = ''.'' then (None, f')
                    else (case mkdir e f' name m of
                            Inl err' \<Rightarrow> (Some err', f') | Inr f'' \<Rightarrow> (None, f''))
                | (None, f') \<Rightarrow>
                    if tail = ''.'' then (None, f')
                    else (case mkdir e f' name m of
                            Inl err' \<Rightarrow> (Some err', f') | Inr f'' \<Rightarrow> (None, f''))) = (r, f')"
      using "1.prems" sp True rec by (subst (asm) makedirs.simps) auto
    show ?thesis
    proof (cases "tail = ''.'' \<or> (\<exists>err. r1 = Some err \<and> err \<noteq> OSError_EEXIST)")
      case True
      then have "f' = f1" "r = None \<or> r = r1"
        using res by (auto split: option.splits if_splits)
      then show ?thesis using ih by auto
    next
      case False
      then have "(case mkdir e f1 name m of Inl err' \<Rightarrow> (Some err', f1) | Inr f'' \<Rightarrow> (None, f''))
                 = (r, f')"
        using res by (auto split: option.splits if_splits)
      then show ?thesis using ih last_step by blast
    qed
  qed
qed

lemma compile_file_error: "compile_file e f inp out root \<noteq> Inl RuntimeError"
proof
  assume a: "compile_file e f inp out root = Inl RuntimeError"
  obtain r0 f1 where m: "(if \<not> path_exists e f (dirname out)
            then makedirs e f (dirname out) 448 else (None, f)) = (r0, f1)"
    by (cases "(if \<not> path_exists e f (dirname out)
            then makedirs e f (dirname out) 448 else (None, f))")
  have r0: "r0 \<noteq> Some RuntimeError"
    using m makedirs_frame[of e f "dirname out" 448 r0 f1] by (auto split: if_splits)
  show False
    using a r0 unfolding compile_file_def m
    by (auto simp: open_read_def open_write_def stat_def chmod_def
             split: option.splits sum.splits if_splits kind.splits dest: get_header_error)
qed

lemma compile_file_Inr:
  assumes "compile_file e f inp out root = Inr (f', o')"
  shows "o' = out \<and> (\<exists>f1 hdr data k a s dn.
           dirs_added e 448 f f1
         \<and> get_header e f1 inp root = Inr hdr
         \<and> lookup e f1 inp = Some s \<and> kind s = Regular data
         \<and> resolve e f1 out = Some k \<and> resolve e f' out = Some k \<and> k \<noteq> []
         \<and> f' = f1(k \<mapsto> a)
         \<and> kind a = Regular (hdr @ transpile data)
         \<and> perm a = (if root then perm s OR 64 else perm s)
         \<and> node_at f1 (butlast k) = Some dn \<and> kind dn = Directory
         \<and> (path_exists e f (dirname out) \<longrightarrow> f1 = f))"
proof -
  obtain r0 f1 where m: "(if \<not> path_exists e f (dirname out)
            then makedirs e f (dirname out) 448 else (None, f)) = (r0, f1)"
    by (cases "(if \<not> path_exists e f (dirname out)
            then makedirs e f (dirname out) 448 else (None, f))")
  have d: "dirs_added e 448 f f1"
    using m makedirs_frame[of e f "dirname out" 448 r0 f1]
    by (auto split: if_splits simp: dirs_added_refl)
  note A = assms[unfolded compile_file_def m]
  have r0: "r0 = None" using A by (cases r0) simp_all
  obtain hdr where h: "get_header e f1 inp root = Inr hdr"
    using A r0 by (cases "get_header e f1 inp root") simp_all
  obtain data where rd: "open_read e f1 inp = Inr data"
    using A r0 h by (cases "open_read e f1 inp") simp_all
  obtain f2 where w: "open_write e f1 out (hdr @ transpile data) = Inr f2"
    using A r0 h rd by (cases "open_write e f1 out (hdr @ transpile data)") simp_all
  obtain s2 where st: "stat e f2 inp = Inr s2"
    using A r0 h rd w by (cases "stat e f2 inp") simp_all
  obtain f3 where c1: "chmod e f2 out (st_mode s2) = Inr f3"
    using A r0 h rd w st by (cases "chmod e f2 out (st_mode s2)") simp_all
  have B: "(if root
            then (case chmod e f3 out (st_mode s2 OR S_IEXEC) of
                    Inl err \<Rightarrow> Inl err | Inr f4 \<Rightarrow> Inr (f4, out))
            else Inr (f3, out)) = Inr (f', o')"
    using A r0 h rd w st c1 by simp
  have o: "o' = out" using B by (auto split: if_splits sum.splits)
  have c2: "if root then chmod e f3 out (st_mode s2 OR S_IEXEC) = Inr f' else f' = f3"
    using B by (auto split: if_splits sum.splits)
  from rd obtain s1 where s1: "lookup e f1 inp = Some s1" "kind s1 = Regular data"
    by (auto simp: open_read_def split: option.splits kind.splits)
  from s1 obtain kin where kin: "resolve e f1 inp = Some kin" "kin \<noteq> []" "f1 kin = Some s1"
    by (auto simp: lookup_def node_at_def split: option.splits if_splits)
  from open_write_frame[OF w] obtain k a2 dn where
    k: "resolve e f1 out = Some k" "k \<noteq> []" and f2: "f2 = f1(k \<mapsto> a2)"
    and a2: "kind a2 = Regular (hdr @ transpile data)"
    and keep: "\<forall>n. f1 k = Some n \<longrightarrow> perm a2 = perm n \<and> (\<exists>x. kind n = Regular x)"
    and dn: "node_at f1 (butlast k) = Some dn" "kind dn = Directory"
    by blast
  have keep': "\<forall>n. f1 k = Some n \<longrightarrow> (\<exists>x. kind n = Regular x)" using keep by blast
  have r2: "\<And>p. resolve e f2 p = resolve e f1 p"
    unfolding f2 using k(2) a2 keep' by (rule resolve_upd_regular)
  have "lookup e f2 inp = Some s2" using st by (auto simp: stat_def split: option.splits)
  then have "f2 kin = Some s2" using kin by (simp add: lookup_def node_at_def r2)
  then have p2: "perm s2 = perm s1"
    using f2 kin(3) keep by (cases "kin = k") auto
  have k2: "resolve e f2 out = Some k" using k(1) by (simp only: r2)
  have n2: "node_at f2 k = Some a2" using k(2) by (simp add: f2 node_at_def)
  from chmod_frame[OF c1] have f3: "f3 = f2(k \<mapsto> a2\<lparr>perm := of_nat (st_mode s2)\<rparr>)"
    using k(2) by (auto simp: k2 n2)
  have f3': "f3 = f1(k \<mapsto> a2\<lparr>perm := of_nat (st_mode s2)\<rparr>)"
    unfolding f3 f2 by simp
  have r3: "\<And>p. resolve e f3 p = resolve e f1 p"
    unfolding f3' using k(2) _ keep' by (rule resolve_upd_regular) (simp add: a2)
  have k3: "resolve e f3 out = Some k" using k(1) by (simp only: r3)
  define a where "a = (if root then a2\<lparr>perm := of_nat (st_mode s2 OR S_IEXEC)\<rparr>
                        else a2\<lparr>perm := of_nat (st_mode s2)\<rparr>)"
  have f': "f' = f1(k \<mapsto> a)"
  proof (cases root)
    case True
    then have "chmod e f3 out (st_mode s2 OR S_IEXEC) = Inr f'" using c2 by simp
    from chmod_frame[OF this] obtain n where
      "node_at f3 k = Some n" "f' = f3(k \<mapsto> n\<lparr>perm := of_nat (st_mode s2 OR S_IEXEC)\<rparr>)"
      using k(2) by (auto simp: k3)
    then show ?thesis using True k(2) by (auto simp: f3' node_at_def a_def)
  next
    case False
    then show ?thesis using c2 f3' by (simp add: a_def)
  qed
  have ka: "kind a = Regular (hdr @ transpile data)"
    by (simp add: a_def a2)
  have r': "resolve e f' out = Some k"
    unfolding f' using k(1) resolve_upd_regular[of k a _ f1 e out, OF k(2) ka keep'] by simp
  have pa: "perm a = (if root then perm s1 OR 64 else perm s1)"
    by (simp add: a_def perm_of_st_mode perm_of_st_mode_exec p2)
  have e1: "path_exists e f (dirname out) \<longrightarrow> f1 = f" using m by auto
  show ?thesis using o d h s1 k r' f' ka pa dn e1 by blast
qed

lemma preprocess_file_Inr:
  assumes "preprocess_file e f p root = Inr (f', out)"
  shows "translate_to_temp_path e (spy_sub p) = Inr out
    \<and> ((\<not> root \<and> is_compilation_needed e f p out = Inr False \<and> f' = f)
       \<or> ((root \<or> is_compilation_needed e f p out = Inr True)
          \<and> compile_file e f p out root = Inr (f', out)))"
proof -
  note A = assms[unfolded preprocess_file_def Let_def]
  obtain o1 where t: "translate_to_temp_path e (spy_sub p) = Inr o1"
    using A by (cases "translate_to_temp_path e (spy_sub p)") simp_all
  show ?thesis
  proof (cases root)
    case True
    then have c: "compile_file e f p o1 root = Inr (f', out)" using A t by simp
    then have "out = o1" using compile_file_Inr by blast
    then show ?thesis using c t True by simp
  next
    case False
    then obtain needed where n: "is_compilation_needed e f p o1 = Inr needed"
      using A t by (cases "is_compilation_needed e f p o1") simp_all
    show ?thesis
    proof (cases needed)
      case True
      then have c: "compile_file e f p o1 root = Inr (f', out)" using A t n False by simp
      then have "out = o1" using compile_file_Inr by blast
      then show ?thesis using c t n True by simp
    next
      case nn: False
      then have "f' = f" "out = o1" using A t n False by simp_all
      then show ?thesis using t n nn False by simp
    qed
  qed
qed

text \<open>
  C3. For a root-flagged source \<^const>\<open>preprocess_file\<close> is the compilation itself, whatever the
  file system holds at the artifact path: \<^const>\<open>is_compilation_needed\<close> is not evaluated, so
  its \<^verbatim>\<open>RuntimeError\<close> for an artifact without stamp cannot occur, and when the call
  returns, the artifact holds the root header with the source's stamp followed by the
  source after the four grammar passes, the Escaper and the Emitter. The header template
  and the source are read once the directory of the artifact is there, in the file system
  \<open>f1\<close>: it is \<open>f\<close> with the directories made, \<open>f\<close> itself when the directory existed, and
  what a path names in \<open>f\<close> it names in \<open>f1\<close>.
\<close>

theorem preprocess_file_root_bypasses_cache:
  "preprocess_file e f in_filepath True
     = (case translate_to_temp_path e (spy_sub in_filepath) of
          Inl err \<Rightarrow> Inl err
        | Inr out_filename \<Rightarrow> compile_file e f in_filepath out_filename True)
   \<and> preprocess_file e f in_filepath True \<noteq> Inl RuntimeError
   \<and> (\<forall>f' out. preprocess_file e f in_filepath True = Inr (f', out) \<longrightarrow>
        (\<exists>f1 header_data s data.
            dirs_added e 448 f f1 \<and> (path_exists e f (dirname out) \<longrightarrow> f1 = f)
          \<and> open_read e f1 (join (pkgdir e) [''header_root.tpl'']) = Inr header_data
          \<and> (\<forall>h. open_read e f (join (pkgdir e) [''header_root.tpl'']) = Inr h
                 \<longrightarrow> h = header_data)
          \<and> lookup e f1 in_filepath = Some s \<and> kind s = Regular data
          \<and> (\<forall>n. lookup e f in_filepath = Some n \<longrightarrow> n = s)
          \<and> open_read e f' out =
              Inr (str_replace ''{SOURCE_MODIFICATION_DATE}'' (''mtime:'' @ st_mtime s) header_data
                   @ intermediate_to_final (escape (process_code_start (process_code_both
                       (process_long_lines (process_multilines data))))))))"
proof (intro conjI allI impI)
  show eq: "preprocess_file e f in_filepath True
     = (case translate_to_temp_path e (spy_sub in_filepath) of
          Inl err \<Rightarrow> Inl err
        | Inr out_filename \<Rightarrow> compile_file e f in_filepath out_filename True)"
    by (cases "translate_to_temp_path e (spy_sub in_filepath)")
       (simp_all add: preprocess_file_def)
  show "preprocess_file e f in_filepath True \<noteq> Inl RuntimeError"
    unfolding eq
    by (cases "translate_to_temp_path e (spy_sub in_filepath)")
       (auto simp: translate_to_temp_path_def relpath_def Let_def compile_file_error
             split: if_splits list.splits)
next
  fix f' out
  assume a: "preprocess_file e f in_filepath True = Inr (f', out)"
  then have c: "compile_file e f in_filepath out True = Inr (f', out)"
    using preprocess_file_Inr by blast
  from compile_file_Inr[OF c] obtain f1 hdr data k a s where
    d: "dirs_added e 448 f f1" and h: "get_header e f1 in_filepath True = Inr hdr"
    and s: "lookup e f1 in_filepath = Some s" "kind s = Regular data"
    and k: "resolve e f' out = Some k" "k \<noteq> []" and f': "f' = f1(k \<mapsto> a)"
    and a: "kind a = Regular (hdr @ transpile data)"
    and e1: "path_exists e f (dirname out) \<longrightarrow> f1 = f"
    by blast
  from h obtain header_data mt where
    hd: "open_read e f1 (join (pkgdir e) [''header_root.tpl'']) = Inr header_data"
    and mt: "getmtime e f1 in_filepath = Inr mt"
    and hdr: "hdr = str_replace ''{SOURCE_MODIFICATION_DATE}'' (''mtime:'' @ mt) header_data"
    by (auto simp: get_header_def Let_def split: sum.splits)
  have hd0: "\<forall>h. open_read e f (join (pkgdir e) [''header_root.tpl'']) = Inr h \<longrightarrow> h = header_data"
    using open_read_mono[OF d] hd by auto
  have s0: "\<forall>n. lookup e f in_filepath = Some n \<longrightarrow> n = s"
    using lookup_mono[OF d] s(1) by auto
  have mt': "mt = st_mtime s" using mt s(1) by (simp add: getmtime_def)
  have "open_read e f' out = Inr (hdr @ transpile data)"
    using k a by (simp add: open_read_def lookup_def node_at_def f')
  then have "open_read e f' out =
      Inr (str_replace ''{SOURCE_MODIFICATION_DATE}'' (''mtime:'' @ st_mtime s) header_data
           @ intermediate_to_final (escape (process_code_start (process_code_both
               (process_long_lines (process_multilines data))))))"
    by (simp add: hdr mt' transpile_def)
  then show "\<exists>f1 header_data s data.
            dirs_added e 448 f f1 \<and> (path_exists e f (dirname out) \<longrightarrow> f1 = f)
          \<and> open_read e f1 (join (pkgdir e) [''header_root.tpl'']) = Inr header_data
          \<and> (\<forall>h. open_read e f (join (pkgdir e) [''header_root.tpl'']) = Inr h
                 \<longrightarrow> h = header_data)
          \<and> lookup e f1 in_filepath = Some s \<and> kind s = Regular data
          \<and> (\<forall>n. lookup e f in_filepath = Some n \<longrightarrow> n = s)
          \<and> open_read e f' out =
              Inr (str_replace ''{SOURCE_MODIFICATION_DATE}'' (''mtime:'' @ st_mtime s) header_data
                   @ intermediate_to_final (escape (process_code_start (process_code_both
                       (process_long_lines (process_multilines data))))))"
    using d e1 hd hd0 s s0 by blast
qed

text \<open>
  C8 (as amended). When \<^const>\<open>preprocess_file\<close> returns, the path it returns is the sandbox
  translation of the source path with a final \<^verbatim>\<open>.spy\<close> rewritten to \<^verbatim>\<open>.py\<close>; and when it
  compiled (a root script, or a compilation was needed), the node at that path is a
  regular file that holds the compiled artifact: the header template of the kind of
  script with its marker replaced by the stamp of the source, followed by the transpiled
  source; its permission bits are those of the source, with the owner's execute bit
  (0100) added for a root script. Template and source are read in \<open>f1\<close>, the file system
  with the directories of the artifact made.
\<close>

theorem preprocess_file_artifact_place_and_mode:
  "\<forall>f' out. preprocess_file e f in_filepath is_root_script = Inr (f', out) \<longrightarrow>
     translate_to_temp_path e (spy_sub in_filepath) = Inr out
     \<and> (is_root_script \<or> is_compilation_needed e f in_filepath out = Inr True \<longrightarrow>
          (\<exists>f1 s data header_data a.
             dirs_added e 448 f f1
           \<and> lookup e f1 in_filepath = Some s \<and> kind s = Regular data
           \<and> (\<forall>n. lookup e f in_filepath = Some n \<longrightarrow> n = s)
           \<and> open_read e f1 (join (pkgdir e)
                 [if is_root_script then ''header_root.tpl'' else ''header.tpl'']) = Inr header_data
           \<and> lookup e f' out = Some a
           \<and> kind a = Regular
                (str_replace ''{SOURCE_MODIFICATION_DATE}'' (''mtime:'' @ st_mtime s) header_data
                 @ transpile data)
           \<and> perm a = (if is_root_script then perm s OR 64 else perm s)))"
proof (intro allI impI conjI)
  fix f' out
  assume a: "preprocess_file e f in_filepath is_root_script = Inr (f', out)"
  show "translate_to_temp_path e (spy_sub in_filepath) = Inr out"
    using preprocess_file_Inr[OF a] by blast
  assume "is_root_script \<or> is_compilation_needed e f in_filepath out = Inr True"
  then have c: "compile_file e f in_filepath out is_root_script = Inr (f', out)"
    using preprocess_file_Inr[OF a] by auto
  from compile_file_Inr[OF c] obtain f1 hdr data k a s where
    d: "dirs_added e 448 f f1" and h: "get_header e f1 in_filepath is_root_script = Inr hdr"
    and s: "lookup e f1 in_filepath = Some s" "kind s = Regular data"
    and k: "resolve e f' out = Some k" "k \<noteq> []" and f': "f' = f1(k \<mapsto> a)"
    and a: "kind a = Regular (hdr @ transpile data)"
    and p: "perm a = (if is_root_script then perm s OR 64 else perm s)"
    by blast
  from h obtain header_data mt where
    hd: "open_read e f1 (join (pkgdir e)
           [if is_root_script then ''header_root.tpl'' else ''header.tpl'']) = Inr header_data"
    and mt: "getmtime e f1 in_filepath = Inr mt"
    and hdr: "hdr = str_replace ''{SOURCE_MODIFICATION_DATE}'' (''mtime:'' @ mt) header_data"
    by (auto simp: get_header_def Let_def split: sum.splits)
  have mt': "mt = st_mtime s" using mt s(1) by (simp add: getmtime_def)
  have s0: "\<forall>n. lookup e f in_filepath = Some n \<longrightarrow> n = s"
    using lookup_mono[OF d] s(1) by auto
  have l: "lookup e f' out = Some a" using k by (simp add: lookup_def node_at_def f')
  have ka: "kind a = Regular
                (str_replace ''{SOURCE_MODIFICATION_DATE}'' (''mtime:'' @ st_mtime s) header_data
                 @ transpile data)"
    using a by (simp add: hdr mt')
  show "\<exists>f1 s data header_data a.
             dirs_added e 448 f f1
           \<and> lookup e f1 in_filepath = Some s \<and> kind s = Regular data
           \<and> (\<forall>n. lookup e f in_filepath = Some n \<longrightarrow> n = s)
           \<and> open_read e f1 (join (pkgdir e)
                 [if is_root_script then ''header_root.tpl'' else ''header.tpl'']) = Inr header_data
           \<and> lookup e f' out = Some a
           \<and> kind a = Regular
                (str_replace ''{SOURCE_MODIFICATION_DATE}'' (''mtime:'' @ st_mtime s) header_data
                 @ transpile data)
           \<and> perm a = (if is_root_script then perm s OR 64 else perm s)"
    using d s s0 hd l ka p by blast
qed




lemma compile_file_succeeds:
  assumes m: "(if \<not> path_exists e f (dirname out)
               then makedirs e f (dirname out) 448 else (None, f)) = (None, f1)"
    and h: "get_header e f1 inp root = Inr hdr"
    and r: "open_read e f1 inp = Inr data"
    and k: "resolve e f1 out = Some k" "k \<noteq> []"
    and d: "node_at f1 (butlast k) = Some dn" "kind dn = Directory"
    and n: "f1 k = None \<or> (\<exists>n x. f1 k = Some n \<and> kind n = Regular x)"
  shows "\<exists>f'. compile_file e f inp out root = Inr (f', out)"
proof -
  obtain f2 a where w: "open_write e f1 out (hdr @ transpile data) = Inr f2"
    and f2: "f2 = f1(k \<mapsto> a)" and a: "kind a = Regular (hdr @ transpile data)"
    using k d n by (auto simp: open_write_def)
  have keep: "\<forall>n. f1 k = Some n \<longrightarrow> (\<exists>x. kind n = Regular x)" using n by auto
  have r2: "\<And>p. resolve e f2 p = resolve e f1 p"
    unfolding f2 using k(2) a keep by (rule resolve_upd_regular)
  from r obtain s1 kin where kin: "resolve e f1 inp = Some kin" "node_at f1 kin = Some s1"
    by (auto simp: open_read_def lookup_def split: option.splits)
  have "node_at f2 kin \<noteq> None" using kin(2) by (auto simp: f2 node_at_def)
  then obtain s2 where s2: "lookup e f2 inp = Some s2"
    using kin(1) by (auto simp: lookup_def r2)
  then have st: "stat e f2 inp = Inr s2" by (simp add: stat_def)
  have k2: "resolve e f2 out = Some k" using k(1) by (simp only: r2)
  have n2: "node_at f2 k = Some a" using k(2) by (simp add: f2 node_at_def)
  define f3 where "f3 = f2(k \<mapsto> a\<lparr>perm := of_nat (st_mode s2)\<rparr>)"
  have c1: "chmod e f2 out (st_mode s2) = Inr f3"
    using k(2) by (simp add: chmod_def k2 n2 f3_def)
  have f3': "f3 = f1(k \<mapsto> a\<lparr>perm := of_nat (st_mode s2)\<rparr>)" by (simp add: f3_def f2)
  have "resolve e f3 out = resolve e f1 out"
    unfolding f3' using k(2) _ keep by (rule resolve_upd_regular) (simp add: a)
  then have k3: "resolve e f3 out = Some k" using k(1) by simp
  have n3: "node_at f3 k \<noteq> None" using k(2) by (simp add: f3' node_at_def)
  obtain f4 where c2: "chmod e f3 out (st_mode s2 OR S_IEXEC) = Inr f4"
    using n3 by (auto simp: chmod_def k3)
  show ?thesis
    unfolding compile_file_def m by (simp add: h r w st c1 c2)
qed

lemma preprocess_file_compiles:
  assumes "translate_to_temp_path e (spy_sub p) = Inr out"
    "root \<or> is_compilation_needed e f p out = Inr True"
  shows "preprocess_file e f p root = compile_file e f p out root"
  using assms by (auto simp: preprocess_file_def)

lemma hit_fs_root_run:
  "\<exists>f'. preprocess_file ex_env hit_fs ''a.spy'' True = Inr (f', ''/tmp/shellpy/u/home/u/a.py'')"
proof -
  let ?out = "''/tmp/shellpy/u/home/u/a.py''"
  let ?k = "[''tmp'', ''shellpy'', ''u'', ''home'', ''u'', ''a.py'']"
  have t: "translate_to_temp_path ex_env (spy_sub ''a.spy'') = Inr ?out" by code_simp
  have p: "path_exists ex_env hit_fs (dirname ?out)" by code_simp
  have h: "get_header ex_env hit_fs ''a.spy'' True
             = Inr (''#!/usr/bin/env python'' @ [NL] @ ''#mtime:2.0'' @ [NL])" by code_simp
  have r: "open_read ex_env hit_fs ''a.spy'' = Inr (''x = '' @ [BQ] @ ''ls'' @ [BQ])" by code_simp
  have k: "resolve ex_env hit_fs ?out = Some ?k" by code_simp
  have d: "node_at hit_fs (butlast ?k)
             = Some \<lparr>kind = Directory, perm = 448, st_mtime = ''3.0''\<rparr>" by code_simp
  have n: "hit_fs ?k = Some \<lparr>kind = Regular (''#mtime:2.0'' @ [NL] @ ''x = 0''), perm = 420,
                               st_mtime = ''3.0''\<rparr>" by code_simp
  have "\<exists>f'. compile_file ex_env hit_fs ''a.spy'' ?out True = Inr (f', ?out)"
    by (rule compile_file_succeeds[where ?f1.0 = hit_fs, OF _ h r k _ d]) (simp_all add: p n)
  then show ?thesis using preprocess_file_compiles[OF t, of True hit_fs] by simp
qed


text \<open>The theorem at a root script whose artifact exists and carries the stamp of the
  source: a cache hit for a module file, yet the artifact is written anew.\<close>

theorem preprocess_file_root_bypasses_cache_witness:
  "is_compilation_needed ex_env hit_fs ''a.spy'' ''/tmp/shellpy/u/home/u/a.py'' = Inr False
   \<and> (\<exists>f'. preprocess_file ex_env hit_fs ''a.spy'' True = Inr (f', ''/tmp/shellpy/u/home/u/a.py'')
          \<and> open_read ex_env f' ''/tmp/shellpy/u/home/u/a.py''
              = Inr (''#!/usr/bin/env python'' @ [NL] @ ''#mtime:2.0'' @ [NL]
                     @ ''x = '' @ exe_call ''ls''))"
proof -
  let ?out = "''/tmp/shellpy/u/home/u/a.py''"
  have hit: "is_compilation_needed ex_env hit_fs ''a.spy'' ?out = Inr False"
    by code_simp
  from hit_fs_root_run obtain f' where
    run: "preprocess_file ex_env hit_fs ''a.spy'' True = Inr (f', ?out)"
    by blast
  have p: "path_exists ex_env hit_fs (dirname ?out)" by code_simp
  from preprocess_file_root_bypasses_cache[of ex_env hit_fs "''a.spy''",
         THEN conjunct2, THEN conjunct2, rule_format, OF run]
  obtain f1 header_data s data where
    f1: "path_exists ex_env hit_fs (dirname ?out) \<longrightarrow> f1 = hit_fs"
    and h: "open_read ex_env f1 (join (pkgdir ex_env) [''header_root.tpl'']) = Inr header_data"
    and s: "lookup ex_env f1 ''a.spy'' = Some s" "kind s = Regular data"
    and c: "open_read ex_env f' ?out =
              Inr (str_replace ''{SOURCE_MODIFICATION_DATE}'' (''mtime:'' @ st_mtime s) header_data
                   @ intermediate_to_final (escape (process_code_start (process_code_both
                       (process_long_lines (process_multilines data))))))"
    by blast
  have f1': "f1 = hit_fs" using f1 p by simp
  have "open_read ex_env hit_fs (join (pkgdir ex_env) [''header_root.tpl''])
          = Inr (''#!/usr/bin/env python'' @ [NL] @ ''#{SOURCE_MODIFICATION_DATE}'' @ [NL])"
    by code_simp
  with h have hd: "header_data = ''#!/usr/bin/env python'' @ [NL] @ ''#{SOURCE_MODIFICATION_DATE}'' @ [NL]"
    by (simp add: f1')
  have "lookup ex_env hit_fs ''a.spy''
          = Some \<lparr>kind = Regular (''x = '' @ [BQ] @ ''ls'' @ [BQ]), perm = 420, st_mtime = ''2.0''\<rparr>"
    by code_simp
  with s have sd: "st_mtime s = ''2.0''" "data = ''x = '' @ [BQ] @ ''ls'' @ [BQ]"
    by (auto simp: f1')
  have 1: "str_replace ''{SOURCE_MODIFICATION_DATE}'' (''mtime:'' @ ''2.0'')
             (''#!/usr/bin/env python'' @ [NL] @ ''#{SOURCE_MODIFICATION_DATE}'' @ [NL])
           = ''#!/usr/bin/env python'' @ [NL] @ ''#mtime:2.0'' @ [NL]"
    by code_simp
  have 2: "intermediate_to_final (escape (process_code_start (process_code_both
             (process_long_lines (process_multilines (''x = '' @ [BQ] @ ''ls'' @ [BQ]))))))
           = ''x = '' @ exe_call ''ls''"
    by code_simp
  have "open_read ex_env f' ?out
              = Inr (''#!/usr/bin/env python'' @ [NL] @ ''#mtime:2.0'' @ [NL]
                     @ ''x = '' @ exe_call ''ls'')"
    unfolding c hd sd 1 2 by simp
  with hit run show ?thesis by blast
qed

text \<open>The theorem at the root script \<^verbatim>\<open>a.spy\<close> of mode 0644 (420): the artifact is
  \<^verbatim>\<open>a.py\<close> in the sandbox, of mode 0744 (484), and holds the root header with the stamp
  \<^verbatim>\<open>2.0\<close> of the source and the transpiled source.\<close>

theorem preprocess_file_artifact_place_and_mode_witness:
  "\<exists>f' a. preprocess_file ex_env hit_fs ''a.spy'' True
                  = Inr (f', ''/tmp/shellpy/u/home/u/a.py'')
     \<and> translate_to_temp_path ex_env (spy_sub ''a.spy'') = Inr ''/tmp/shellpy/u/home/u/a.py''
     \<and> lookup ex_env f' ''/tmp/shellpy/u/home/u/a.py'' = Some a
     \<and> kind a = Regular (''#!/usr/bin/env python'' @ [NL] @ ''#mtime:2.0'' @ [NL]
                          @ ''x = '' @ exe_call ''ls'')
     \<and> perm a = 484"
proof -
  let ?out = "''/tmp/shellpy/u/home/u/a.py''"
  from hit_fs_root_run obtain f' where
    run: "preprocess_file ex_env hit_fs ''a.spy'' True = Inr (f', ?out)"
    by blast
  note t = preprocess_file_artifact_place_and_mode[of ex_env hit_fs "''a.spy''" True,
             rule_format, OF run]
  from t have 1: "translate_to_temp_path ex_env (spy_sub ''a.spy'') = Inr ?out"
    by (rule conjunct1)
  from t[THEN conjunct2] obtain f1 s data header_data a where
    s: "lookup ex_env f1 ''a.spy'' = Some s" "kind s = Regular data"
    and s0: "\<forall>n. lookup ex_env hit_fs ''a.spy'' = Some n \<longrightarrow> n = s"
    and d: "dirs_added ex_env 448 hit_fs f1"
    and h: "open_read ex_env f1 (join (pkgdir ex_env) [''header_root.tpl'']) = Inr header_data"
    and a: "lookup ex_env f' ?out = Some a"
    and ka: "kind a = Regular
                (str_replace ''{SOURCE_MODIFICATION_DATE}'' (''mtime:'' @ st_mtime s) header_data
                 @ transpile data)"
    and p: "perm a = perm s OR 64"
    by auto
  have l0: "lookup ex_env hit_fs ''a.spy''
          = Some \<lparr>kind = Regular (''x = '' @ [BQ] @ ''ls'' @ [BQ]), perm = 420, st_mtime = ''2.0''\<rparr>"
    by code_simp
  with s0 have se: "s = \<lparr>kind = Regular (''x = '' @ [BQ] @ ''ls'' @ [BQ]), perm = 420, st_mtime = ''2.0''\<rparr>"
    by simp
  then have sd: "st_mtime s = ''2.0''" "data = ''x = '' @ [BQ] @ ''ls'' @ [BQ]" "perm s = 420"
    using s(2) by auto
  have h0: "open_read ex_env hit_fs (join (pkgdir ex_env) [''header_root.tpl''])
          = Inr (''#!/usr/bin/env python'' @ [NL] @ ''#{SOURCE_MODIFICATION_DATE}'' @ [NL])"
    by code_simp
  have hd: "header_data = ''#!/usr/bin/env python'' @ [NL] @ ''#{SOURCE_MODIFICATION_DATE}'' @ [NL]"
    using open_read_mono[OF d h0] h by simp
  have e1: "str_replace ''{SOURCE_MODIFICATION_DATE}'' (''mtime:'' @ ''2.0'')
             (''#!/usr/bin/env python'' @ [NL] @ ''#{SOURCE_MODIFICATION_DATE}'' @ [NL])
           = ''#!/usr/bin/env python'' @ [NL] @ ''#mtime:2.0'' @ [NL]"
    by code_simp
  have e2: "transpile (''x = '' @ [BQ] @ ''ls'' @ [BQ]) = ''x = '' @ exe_call ''ls''"
    by code_simp
  have ka': "kind a = Regular (''#!/usr/bin/env python'' @ [NL] @ ''#mtime:2.0'' @ [NL]
                          @ ''x = '' @ exe_call ''ls'')"
    unfolding ka hd sd e1 e2 by simp
  have "perm a = 484" using p sd(3) by simp
  then show ?thesis using run 1 a ka' by blast
qed

text \<open>C8 as stated fails: the source path \<^verbatim>\<open>a.spy\<close> translates to \<^verbatim>\<open>a.spy\<close> in the sandbox,
  the artifact is written to \<^verbatim>\<open>a.py\<close> there, and nothing is at the translation of the
  source path.\<close>

theorem preprocess_file_artifact_place_counterexample:
  "translate_to_temp_path ex_env ''a.spy'' = Inr ''/tmp/shellpy/u/home/u/a.spy''
   \<and> (\<exists>f' a. preprocess_file ex_env hit_fs ''a.spy'' True
                  = Inr (f', ''/tmp/shellpy/u/home/u/a.py'')
          \<and> lookup ex_env f' ''/tmp/shellpy/u/home/u/a.py'' = Some a
          \<and> lookup ex_env f' ''/tmp/shellpy/u/home/u/a.spy'' = None)"
proof -
  let ?out = "''/tmp/shellpy/u/home/u/a.py''"
  let ?k = "[''tmp'', ''shellpy'', ''u'', ''home'', ''u'', ''a.py'']"
  have 1: "translate_to_temp_path ex_env ''a.spy'' = Inr ''/tmp/shellpy/u/home/u/a.spy''"
    by code_simp
  from hit_fs_root_run obtain f' where
    run: "preprocess_file ex_env hit_fs ''a.spy'' True = Inr (f', ?out)"
    by blast
  then have c: "compile_file ex_env hit_fs ''a.spy'' ?out True = Inr (f', ?out)"
    using preprocess_file_Inr by blast
  have p: "path_exists ex_env hit_fs (dirname ?out)" by code_simp
  from compile_file_Inr[OF c] p obtain k a x where
    k: "resolve ex_env hit_fs ?out = Some k" and f': "f' = hit_fs(k \<mapsto> a)"
    and ka: "kind a = Regular x"
    by blast
  have k': "resolve ex_env hit_fs ?out = Some ?k"
    by code_simp
  have kk: "k = ?k" using k k' by simp
  have "hit_fs ?k = Some \<lparr>kind = Regular (''#mtime:2.0'' @ [NL] @ ''x = 0''), perm = 420,
                               st_mtime = ''3.0''\<rparr>"
    by code_simp
  then have old: "\<forall>n. hit_fs ?k = Some n \<longrightarrow> (\<exists>x. kind n = Regular x)"
    by simp
  have same: "\<And>p. resolve ex_env f' p = resolve ex_env hit_fs p"
    unfolding f' kk using _ ka old by (rule resolve_upd_regular) simp
  have r: "resolve ex_env hit_fs ''/tmp/shellpy/u/home/u/a.spy''
             = Some [''tmp'', ''shellpy'', ''u'', ''home'', ''u'', ''a.spy'']"
    by code_simp
  have n: "hit_fs [''tmp'', ''shellpy'', ''u'', ''home'', ''u'', ''a.spy''] = None"
    by code_simp
  have 2: "lookup ex_env f' ?out = Some a"
    by (simp add: lookup_def same k') (simp add: f' kk node_at_def)
  have 3: "lookup ex_env f' ''/tmp/shellpy/u/home/u/a.spy'' = None"
    by (simp add: lookup_def same r) (simp add: f' kk node_at_def n)
  show ?thesis using 1 run 2 3 by blast
qed


section \<open>The start-only form: properties\<close>











section \<open>Searching for a marker: properties\<close>




section \<open>The Emitter: properties\<close>











end
